theory Spec2Isabelle
  imports Main "HOL-Library.AList"
begin


section \<open>The subprocess-backed RPC client (\<^verbatim>\<open>proxy_mcp/mcp_client.py\<close>)\<close>

text \<open>
  A shallow embedding of the class \<^verbatim>\<open>InnerMCPClient\<close>. Every method is a function on an
  explicit client state. The subprocess, the clock and the operating system are an
  environment record that the blocking methods consult. Exceptions are values.
\<close>

subsection \<open>Values, exceptions, futures\<close>

text \<open>
  What \<^verbatim>\<open>json.loads\<close> returns. Numbers with a fraction or an exponent (Python floats)
  are left out of the model.
\<close>

datatype json =
    JNull
  | JBool bool
  | JInt int
  | JStr string
  | JArr "json list"
  | JObj "(string \<times> json) list"

text \<open>
  The exceptions that the methods raise or store in a future.
  \<^item> \<open>InnerMCPError e\<close> is \<^verbatim>\<open>RuntimeError(f"Inner MCP error: {resp['error']}")\<close>;
  \<^item> \<open>ServerRestarted\<close> is \<^verbatim>\<open>RuntimeError("Server restarted")\<close>;
  \<^item> \<open>TimeoutError m\<close> is \<^verbatim>\<open>TimeoutError(f"Request {m} timed out")\<close>;
  \<^item> \<open>OSError\<close> stands for a failure of \<^verbatim>\<open>Popen\<close>, of a write to the pipe or of a read;
  \<^item> \<open>AttributeError\<close> and \<open>TypeError\<close> are raised by \<^verbatim>\<open>resp.get\<close> on a value that is
    not a dictionary and by a dictionary lookup with an unhashable key;
  \<^item> \<open>DictChanged\<close> is \<^verbatim>\<open>RuntimeError("dictionary changed size during iteration")\<close>,
    raised by the loop over a dictionary whose size another thread has changed.
\<close>

datatype exc =
    InnerMCPError json
  | ServerRestarted
  | TimeoutError string
  | OSError
  | AttributeError
  | TypeError
  | DictChanged

text \<open>The state of a \<^verbatim>\<open>concurrent.futures.Future\<close>.\<close>

datatype fstate = Pending | Result json | Failed exc

fun is_done :: "fstate \<Rightarrow> bool" where
  "is_done Pending = False"
| "is_done (Result r) = True"
| "is_done (Failed e) = True"

text \<open>What a call gives back to its caller.\<close>

datatype 'a outcome = Returns 'a | Raises exc

text \<open>A message written to the standard input of the subprocess.\<close>

datatype msg =
    Request int string json
  | Notification string json

text \<open>One call of \<^verbatim>\<open>readline\<close> followed by \<^verbatim>\<open>json.loads\<close>.\<close>

datatype read =
    Eof
  | ReadError
  | NotJson string
  | Json json

text \<open>The calls of \<^verbatim>\<open>logger\<close>, in the order of the source.\<close>

datatype log_entry =
    LogStarting
  | LogStartFailed exc
  | LogRestarting
  | LogStdoutClosed
  | LogInvalidJson string
  | LogNotification json
  | LogReaderError exc
  | LogInitialized
  | LogInitFailed exc
  | LogProcessDied
  | LogSent int string
  | LogTimedOut int string nat
  | LogCallError string exc

subsection \<open>The client state\<close>

text \<open>
  The fields of \<^verbatim>\<open>InnerMCPClient\<close>. Futures are objects shared between the pending
  table and the frames of their callers, so they live in a store \<open>heap\<close> and the table
  holds addresses; \<open>nfut\<close> is the next free address. \<open>proc\<close> is the number of the
  process that \<^verbatim>\<open>self.proc\<close> refers to. The fields \<open>spawned\<close>, \<open>terminated\<close>,
  \<open>stdin\<close>, \<open>restarts\<close>, \<open>reader_running\<close> and \<open>log\<close> record the effects on the
  outside: the number of calls of \<^verbatim>\<open>Popen\<close>, which also numbers the processes; the
  processes terminated; the messages written, each with the process that received it; the
  number of calls of \<^verbatim>\<open>_restart_subprocess\<close>; whether the reader thread is alive; and
  the log. The fields \<^verbatim>\<open>cmd\<close> and \<^verbatim>\<open>env\<close> are left out: nothing reads them but
  \<^verbatim>\<open>Popen\<close>.
\<close>

record client =
  timeout :: nat
  next_id :: int
  pending :: "(int \<times> nat) list"
  heap :: "nat \<Rightarrow> fstate"
  nfut :: nat
  stop_event :: bool
  proc :: "nat option"
  spawned :: nat
  terminated :: "nat list"
  stdin :: "(nat \<times> msg) list"
  restarts :: nat
  reader_running :: bool
  log :: "log_entry list"

definition logs :: "log_entry \<Rightarrow> client \<Rightarrow> client" where
  "logs e s = s\<lparr>log := log s @ [e]\<rparr>"

subsection \<open>The reader loop\<close>

text \<open>
  The key that a decoded \<^verbatim>\<open>id\<close> selects in a dictionary whose keys are integers.
  Python compares \<^verbatim>\<open>True\<close> equal to \<^verbatim>\<open>1\<close> and \<^verbatim>\<open>False\<close> to \<^verbatim>\<open>0\<close>, a string
  equals no integer, and a list or a dictionary is unhashable.
\<close>

fun dict_key :: "json \<Rightarrow> exc + int option" where
  "dict_key (JInt n) = Inr (Some n)"
| "dict_key (JBool b) = Inr (Some (if b then 1 else 0))"
| "dict_key (JStr s) = Inr None"
| "dict_key JNull = Inr None"
| "dict_key (JArr xs) = Inl TypeError"
| "dict_key (JObj kv) = Inl TypeError"

text \<open>\<^verbatim>\<open>self._pending_requests.pop(req_id, None)\<close>\<close>

definition pop :: "int option \<Rightarrow> (int \<times> nat) list \<Rightarrow> nat option \<times> (int \<times> nat) list" where
  "pop k d = (case k of None \<Rightarrow> (None, d) | Some i \<Rightarrow> (map_of d i, AList.delete i d))"

text \<open>Lines 115 to 118: what a response makes of the future it resolves.\<close>

definition resolve :: "(string \<times> json) list \<Rightarrow> fstate" where
  "resolve resp =
     (case map_of resp ''error'' of
        Some e \<Rightarrow> Failed (InnerMCPError e)
      | None \<Rightarrow> (case map_of resp ''result'' of Some r \<Rightarrow> Result r | None \<Rightarrow> Result (JObj [])))"

text \<open>Lines 120 to 122: a message with a method and no id is logged.\<close>

definition note_notification :: "(string \<times> json) list \<Rightarrow> client \<Rightarrow> client" where
  "note_notification resp s =
     (case (map_of resp ''method'', map_of resp ''id'') of
        (Some m, None) \<Rightarrow> logs (LogNotification m) s
      | _ \<Rightarrow> s)"

datatype 'a step = Continue 'a | Break 'a

fun state_of :: "'a step \<Rightarrow> 'a" where
  "state_of (Continue s) = s"
| "state_of (Break s) = s"

fun continues :: "'a step \<Rightarrow> bool" where
  "continues (Continue s) = True"
| "continues (Break s) = False"

text \<open>Lines 110 to 122, for a decoded value \<open>v\<close>.\<close>

definition handle_message :: "client \<Rightarrow> json \<Rightarrow> client step" where
  "handle_message s v =
     (case v of
        JObj resp \<Rightarrow>
          (case map_of resp ''id'' of
             None \<Rightarrow> Continue (note_notification resp s)
           | Some JNull \<Rightarrow> Continue (note_notification resp s)
           | Some req_id \<Rightarrow>
               (case dict_key req_id of
                  Inl e \<Rightarrow> Break (logs (LogReaderError e) s)
                | Inr k \<Rightarrow>
                    (case pop k (pending s) of
                       (None, d) \<Rightarrow> Continue (note_notification resp (s\<lparr>pending := d\<rparr>))
                     | (Some a, d) \<Rightarrow>
                         Continue (note_notification resp
                           (if \<not> is_done (heap s a)
                            then s\<lparr>pending := d, heap := (heap s)(a := resolve resp)\<rparr>
                            else s\<lparr>pending := d\<rparr>)))))
      | _ \<Rightarrow> Break (logs (LogReaderError AttributeError) s))"

text \<open>One iteration of the loop body, lines 99 to 126, for one result of reading.\<close>

fun reader_step :: "client \<Rightarrow> read \<Rightarrow> client step" where
  "reader_step s Eof = Break (logs LogStdoutClosed s)"
| "reader_step s ReadError = Break (logs (LogReaderError OSError) s)"
| "reader_step s (NotJson l) = Continue (logs (LogInvalidJson l) s)"
| "reader_step s (Json v) = handle_message s v"

text \<open>
  The loop of \<^verbatim>\<open>_reader_loop\<close> over the successive results of reading. The end of the
  list is a reader blocked in \<^verbatim>\<open>readline\<close>; the end of the stream is \<open>Eof\<close>.
\<close>

fun reader_loop :: "client \<Rightarrow> read list \<Rightarrow> client" where
  "reader_loop s [] = s"
| "reader_loop s (r # rs) =
     (if \<not> reader_running s then s
      else if stop_event s \<or> proc s = None then s\<lparr>reader_running := False\<rparr>
      else (case reader_step s r of
              Continue s' \<Rightarrow> reader_loop s' rs
            | Break s' \<Rightarrow> s'\<lparr>reader_running := False\<rparr>))"

subsection \<open>Identifiers, futures, the pending table\<close>

text \<open>\<^verbatim>\<open>_get_id\<close>, lines 157 to 161.\<close>

definition get_id :: "client \<Rightarrow> int \<times> client" where
  "get_id s = (next_id s, s\<lparr>next_id := next_id s + 1\<rparr>)"

text \<open>\<^verbatim>\<open>Future()\<close>: a new object, not done.\<close>

definition new_future :: "client \<Rightarrow> nat \<times> client" where
  "new_future s = (nfut s, s\<lparr>heap := (heap s)(nfut s := Pending), nfut := nfut s + 1\<rparr>)"

text \<open>Lines 174 to 176: the identifier, the future and its entry in the table.\<close>

definition register :: "client \<Rightarrow> int \<times> nat \<times> client" where
  "register s =
     (let (req_id, s1) = get_id s;
          (a, s2) = new_future s1
      in (req_id, a, s2\<lparr>pending := AList.update req_id a (pending s2)\<rparr>))"

text \<open>Lines 83 to 85: every future of the table that is not done fails.\<close>

fun fail_all :: "(int \<times> nat) list \<Rightarrow> (nat \<Rightarrow> fstate) \<Rightarrow> (nat \<Rightarrow> fstate)" where
  "fail_all [] h = h"
| "fail_all ((i, a) # d) h =
     fail_all d (if \<not> is_done (h a) then h(a := Failed ServerRestarted) else h)"

text \<open>
  Lines 71 to 86 of \<^verbatim>\<open>_restart_subprocess\<close>, everything before the call of
  \<^verbatim>\<open>_start_subprocess\<close>, when no other thread changes the table while the loop of
  lines 83 to 85 runs over it.
\<close>

definition teardown :: "client \<Rightarrow> client" where
  "teardown s =
     (let s1 = logs LogRestarting (s\<lparr>restarts := restarts s + 1\<rparr>);
          s2 = s1\<lparr>stop_event := True\<rparr>;
          s3 = (case proc s2 of
                  None \<Rightarrow> s2
                | Some g \<Rightarrow> s2\<lparr>terminated := terminated s2 @ [g]\<rparr>)
      in s3\<lparr>heap := fail_all (pending s3) (heap s3), pending := []\<rparr>)"

text \<open>
  The table is read and written without the lock by the reader (line 113) and by the other
  callers (lines 176, 199 and 206), so the loop of lines 83 to 85 can meet a table that
  another thread has changed: the caller that line 85 has just woken removes its own entry
  in line 206, and a caller that has its identifier from line 174 inserts its entry in
  line 176 without the lock. A change of the size of the table is one of these two.
\<close>

datatype change = Removes int | Inserts int

text \<open>The change makes the table smaller or larger: the key is there, or is not.\<close>

definition resizes :: "change \<Rightarrow> (int \<times> nat) list \<Rightarrow> bool" where
  "resizes c d = (case c of Removes j \<Rightarrow> map_of d j \<noteq> None | Inserts j \<Rightarrow> map_of d j = None)"

text \<open>
  The change itself: \<^verbatim>\<open>pop(j, None)\<close> of line 113, 199 or 206, or lines 175 and 176 of a
  caller whose identifier is \<open>j\<close>.
\<close>

definition apply_change :: "change \<Rightarrow> client \<Rightarrow> client" where
  "apply_change c s =
     (case c of
        Removes j \<Rightarrow> s\<lparr>pending := AList.delete j (pending s)\<rparr>
      | Inserts j \<Rightarrow>
          (let (a, s1) = new_future s in s1\<lparr>pending := AList.update j a (pending s1)\<rparr>))"

text \<open>
  \<open>interrupted k c s\<close> is lines 71 to 85 when another thread makes the change \<open>c\<close> after
  the loop has visited \<open>k\<close> entries: the next step of the iteration raises
  \<^verbatim>\<open>RuntimeError\<close>, so only the first \<open>k\<close> futures are failed, the table is not
  emptied (line 86 is not reached) and no process is started (line 88 is not reached).
\<close>

definition interrupted :: "nat \<Rightarrow> change \<Rightarrow> client \<Rightarrow> client" where
  "interrupted k c s =
     (let s1 = logs LogRestarting (s\<lparr>restarts := restarts s + 1\<rparr>);
          s2 = s1\<lparr>stop_event := True\<rparr>;
          s3 = (case proc s2 of
                  None \<Rightarrow> s2
                | Some g \<Rightarrow> s2\<lparr>terminated := terminated s2 @ [g]\<rparr>)
      in apply_change c (s3\<lparr>heap := fail_all (take k (pending s3)) (heap s3)\<rparr>))"

subsection \<open>The environment\<close>

text \<open>
  What the methods cannot decide themselves. Processes are numbered by the calls of
  \<^verbatim>\<open>Popen\<close>, requests by their identifiers.
  \<^item> \<open>popen_ok g\<close>: the call of \<^verbatim>\<open>Popen\<close> number \<open>g\<close> creates a process;
  \<^item> \<open>exited g n\<close>: \<^verbatim>\<open>poll()\<close> finds that process \<open>g\<close> has exited, asked when the next
    identifier is \<open>n\<close>;
  \<^item> \<open>write_ok g i\<close>: writing request \<open>i\<close> to process \<open>g\<close> succeeds;
  \<^item> \<open>notify_ok g\<close>: writing the notification to process \<open>g\<close> succeeds;
  \<^item> \<open>reads g i\<close>: what the reader thread reads from the moment request \<open>i\<close> is written
    to process \<open>g\<close> until the caller of \<open>i\<close> stops waiting, because its future is done
    or because its deadline has passed;
  \<^item> \<open>meddle r\<close>: what the other threads do to the table during the loop of the restart
    that follows \<open>r\<close> earlier ones: nothing, or \<open>Some (k, c)\<close>, the change \<open>c\<close> after
    the loop has visited \<open>k\<close> entries.
\<close>

record env =
  popen_ok :: "nat \<Rightarrow> bool"
  exited :: "nat \<Rightarrow> int \<Rightarrow> bool"
  write_ok :: "nat \<Rightarrow> int \<Rightarrow> bool"
  notify_ok :: "nat \<Rightarrow> bool"
  reads :: "nat \<Rightarrow> int \<Rightarrow> read list"
  meddle :: "nat \<Rightarrow> (nat \<times> change) option"

definition init_params :: json where
  "init_params =
     JObj [(''protocolVersion'', JStr ''2024-11-05''),
           (''capabilities'', JObj []),
           (''clientInfo'', JObj [(''name'', JStr ''proxy-client''), (''version'', JStr ''1.0'')])]"

text \<open>
  Whether the loop of the restart that starts in \<open>s\<close> is interrupted, and where: the
  change comes while the loop runs, after at most as many visits as the table has entries,
  and it changes the size of the table.
\<close>

definition disturbed :: "env \<Rightarrow> client \<Rightarrow> (nat \<times> change) option" where
  "disturbed E s =
     (case meddle E (restarts s) of
        None \<Rightarrow> None
      | Some (k, c) \<Rightarrow>
          if k \<le> length (pending s) \<and> resizes c (pending s) then Some (k, c) else None)"

text \<open>Lines 186 to 191: the write of the request, which can fail.\<close>

definition transmit :: "env \<Rightarrow> string \<Rightarrow> json \<Rightarrow> int \<Rightarrow> client \<Rightarrow> exc + client" where
  "transmit E method params req_id s =
     (case proc s of
        None \<Rightarrow> Inl AttributeError
      | Some g \<Rightarrow>
          if write_ok E g req_id
          then Inr (logs (LogSent req_id method)
                 (s\<lparr>stdin := stdin s @ [(g, Request req_id method params)]\<rparr>))
          else Inl OSError)"

text \<open>The reader thread runs while the caller of \<open>req_id\<close> waits in line 194.\<close>

definition await :: "env \<Rightarrow> int \<Rightarrow> client \<Rightarrow> client" where
  "await E req_id s =
     (case proc s of None \<Rightarrow> s | Some g \<Rightarrow> reader_loop s (reads E g req_id))"

text \<open>Lines 204 to 207.\<close>

definition on_exception :: "string \<Rightarrow> int \<Rightarrow> exc \<Rightarrow> client \<Rightarrow> client" where
  "on_exception method req_id e s =
     (let s1 = logs (LogCallError method e) s
      in s1\<lparr>pending := AList.delete req_id (pending s1)\<rparr>)"

text \<open>Lines 197 to 199: the handler of a timeout, before it restarts.\<close>

definition forget :: "string \<Rightarrow> nat \<Rightarrow> int \<Rightarrow> client \<Rightarrow> client" where
  "forget method tmo req_id s =
     (let s1 = logs (LogTimedOut req_id method tmo) s
      in s1\<lparr>pending := AList.delete req_id (pending s1)\<rparr>)"

subsection \<open>Sending, restarting, starting, initialising\<close>

text \<open>
  \<^verbatim>\<open>_send_request\<close>, \<^verbatim>\<open>_restart_subprocess\<close>, \<^verbatim>\<open>_start_subprocess\<close> and
  \<^verbatim>\<open>_initialize\<close> call each other. The first argument bounds the depth of the calls:
  every call takes one unit, and \<open>None\<close> says that the bound was reached before the call
  returned. A call that returns or raises gives \<open>Some\<close>. The bound is a device of the model:
  the limit that the interpreter puts on the depth of its own stack, and the
  \<^verbatim>\<open>RecursionError\<close> it raises there, are not modelled.
\<close>

fun send_request ::
    "nat \<Rightarrow> env \<Rightarrow> string \<Rightarrow> json \<Rightarrow> nat option \<Rightarrow> client \<Rightarrow> (client \<times> json outcome) option"
  and restart_subprocess :: "nat \<Rightarrow> env \<Rightarrow> client \<Rightarrow> (client \<times> unit outcome) option"
  and start_subprocess :: "nat \<Rightarrow> env \<Rightarrow> client \<Rightarrow> (client \<times> unit outcome) option"
  and initialize :: "nat \<Rightarrow> env \<Rightarrow> client \<Rightarrow> (client \<times> unit outcome) option"
where
  "send_request 0 E method params tmo s = None"
| "send_request (Suc n) E method params tmo s =
     (case proc s of
        None \<Rightarrow> Some (s, Raises AttributeError)
      | Some g \<Rightarrow>
          (case (if exited E g (next_id s)
                 then restart_subprocess n E (logs LogProcessDied s)
                 else Some (s, Returns ())) of
             None \<Rightarrow> None
           | Some (s1, Raises e) \<Rightarrow> Some (s1, Raises e)
           | Some (s1, Returns u) \<Rightarrow>
               (case register s1 of
                  (req_id, a, s2) \<Rightarrow>
                    (case transmit E method params req_id s2 of
                       Inl e \<Rightarrow> Some (on_exception method req_id e s2, Raises e)
                     | Inr s3 \<Rightarrow>
                         (let s4 = await E req_id s3 in
                          case heap s4 a of
                            Result r \<Rightarrow> Some (s4, Returns r)
                          | Failed e \<Rightarrow> Some (on_exception method req_id e s4, Raises e)
                          | Pending \<Rightarrow>
                              (case restart_subprocess n E
                                      (forget method (case tmo of None \<Rightarrow> timeout s4 | Some t \<Rightarrow> t)
                                         req_id s4) of
                                 None \<Rightarrow> None
                               | Some (s5, Raises e) \<Rightarrow> Some (s5, Raises e)
                               | Some (s5, Returns u) \<Rightarrow>
                                   Some (s5, Raises (TimeoutError method))))))))"
| "restart_subprocess 0 E s = None"
| "restart_subprocess (Suc n) E s =
     (case disturbed E s of
        None \<Rightarrow> start_subprocess n E (teardown s)
      | Some (k, c) \<Rightarrow> Some (interrupted k c s, Raises DictChanged))"
| "start_subprocess 0 E s = None"
| "start_subprocess (Suc n) E s =
     (let s1 = (logs LogStarting s)\<lparr>spawned := spawned s + 1\<rparr> in
      if \<not> popen_ok E (spawned s)
      then Some (logs (LogStartFailed OSError) s1, Raises OSError)
      else
        (case initialize n E
                (s1\<lparr>proc := Some (spawned s), stop_event := False, reader_running := True\<rparr>) of
           None \<Rightarrow> None
         | Some (s2, Raises e) \<Rightarrow> Some (logs (LogStartFailed e) s2, Raises e)
         | Some (s2, Returns u) \<Rightarrow> Some (s2, Returns ())))"
| "initialize 0 E s = None"
| "initialize (Suc n) E s =
     (case send_request n E ''initialize'' init_params (Some 60) s of
        None \<Rightarrow> None
      | Some (s1, Raises e) \<Rightarrow> Some (logs (LogInitFailed e) s1, Raises e)
      | Some (s1, Returns r) \<Rightarrow>
          (case proc s1 of
             None \<Rightarrow> Some (logs (LogInitFailed AttributeError) s1, Raises AttributeError)
           | Some g \<Rightarrow>
               if notify_ok E g
               then Some (logs LogInitialized
                      (s1\<lparr>stdin := stdin s1 @
                            [(g, Notification ''notifications/initialized'' (JObj []))]\<rparr>),
                      Returns ())
               else Some (logs (LogInitFailed OSError) s1, Raises OSError)))"


text \<open>\<^verbatim>\<open>__init__\<close>, lines 29 to 39.\<close>

definition fresh :: "nat \<Rightarrow> client" where
  "fresh tmo =
     \<lparr>timeout = tmo, next_id = 1, pending = [], heap = (\<lambda>a. Pending), nfut = 0,
      stop_event = False, proc = None, spawned = 0, terminated = [], stdin = [],
      restarts = 0, reader_running = False, log = []\<rparr>"

definition init :: "nat \<Rightarrow> env \<Rightarrow> nat \<Rightarrow> (client \<times> unit outcome) option" where
  "init n E tmo = start_subprocess n E (fresh tmo)"

subsection \<open>Relations between two states of the client\<close>

text \<open>The fields that the reader loop reads or writes, apart from the log.\<close>

definition reader_view :: "client \<Rightarrow> client \<Rightarrow> bool" where
  "reader_view s t \<longleftrightarrow>
     pending s = pending t \<and> heap s = heap t \<and> stop_event s = stop_event t \<and>
     proc s = proc t \<and> reader_running s = reader_running t"

text \<open>What the reader loop leaves as it is, and that it only removes entries.\<close>

definition frame :: "client \<Rightarrow> client \<Rightarrow> bool" where
  "frame s s' \<longleftrightarrow>
     next_id s' = next_id s \<and> nfut s' = nfut s \<and> spawned s' = spawned s \<and> proc s' = proc s \<and>
     restarts s' = restarts s \<and> terminated s' = terminated s \<and> stdin s' = stdin s \<and>
     timeout s' = timeout s \<and> set (pending s') \<subseteq> set (pending s)"

subsection \<open>Example environments and states\<close>

text \<open>A subprocess that answers every request at once with an empty result.\<close>

definition answering :: env where
  "answering =
     \<lparr>popen_ok = (\<lambda>g. True), exited = (\<lambda>g n. False), write_ok = (\<lambda>g i. True),
      notify_ok = (\<lambda>g. True),
      reads = (\<lambda>g i. [Json (JObj [(''id'', JInt i), (''result'', JObj [])])]),
      meddle = (\<lambda>r. None)\<rparr>"

text \<open>The client that \<^verbatim>\<open>__init__\<close> returns against \<open>answering\<close>.\<close>

definition connected :: client where
  "connected =
     \<lparr>timeout = 30, next_id = 2, pending = [], heap = (\<lambda>a. Pending)(0 := Result (JObj [])),
      nfut = 1, stop_event = False, proc = Some 0, spawned = 1, terminated = [],
      stdin = [(0, Request 1 ''initialize'' init_params),
               (0, Notification ''notifications/initialized'' (JObj []))],
      restarts = 0, reader_running = True,
      log = [LogStarting, LogSent 1 ''initialize'', LogInitialized]\<rparr>"

text \<open>The same client with one call registered and written: request 2, future 1.\<close>

definition waiting :: client where
  "waiting =
     (case register connected of
        (req_id, a, s) \<Rightarrow>
          (case transmit answering ''tools/call'' (JObj []) req_id s of
             Inr s' \<Rightarrow> s'
           | Inl e \<Rightarrow> s))"

text \<open>A subprocess that starts, accepts every write and never prints a line.\<close>

definition silent :: env where
  "silent =
     \<lparr>popen_ok = (\<lambda>g. True), exited = (\<lambda>g n. False), write_ok = (\<lambda>g i. True),
      notify_ok = (\<lambda>g. True), reads = (\<lambda>g i. []),
      meddle = (\<lambda>r. None)\<rparr>"





text \<open>
  The first process stops answering and the second never answers its handshake; the
  later ones answer every request.
\<close>

definition stalled_twice :: env where
  "stalled_twice =
     \<lparr>popen_ok = (\<lambda>g. True), exited = (\<lambda>g n. False), write_ok = (\<lambda>g i. True),
      notify_ok = (\<lambda>g. True),
      reads = (\<lambda>g i. if g < 2 then []
                      else [Json (JObj [(''id'', JInt i), (''result'', JObj [])])]),
      meddle = (\<lambda>r. None)\<rparr>"

text \<open>
  The first process has exited when it is polled; the second answers its handshake,
  request 3, and no other request; the later ones answer every request.
\<close>

definition crashed_then_stalled :: env where
  "crashed_then_stalled =
     \<lparr>popen_ok = (\<lambda>g. True), exited = (\<lambda>g n. g = 0), write_ok = (\<lambda>g i. True),
      notify_ok = (\<lambda>g. True),
      reads = (\<lambda>g i. if g = 0 \<or> (g = 1 \<and> i \<noteq> 3) then []
                      else [Json (JObj [(''id'', JInt i), (''result'', JObj [])])]),
      meddle = (\<lambda>r. None)\<rparr>"



subsection \<open>The phases of a call\<close>









subsection \<open>The actions on the shared state\<close>

text \<open>
  One action of some thread of the client on the shared state: the registration of a
  request, one iteration of the reader, the teardown of a restart, the removal of an entry
  by a handler, any action that leaves the identifier counter, the table and the futures
  as they are (logging, writing to the pipe, creating a process, setting a flag), or the
  part of a restart that a change of the table interrupts. The parameter says which
  changes can interrupt a restart. The reflexive transitive closure covers every sequence
  of calls and every interleaving of these actions.
\<close>

inductive act :: "(change \<Rightarrow> bool) \<Rightarrow> client \<Rightarrow> client \<Rightarrow> bool" for A :: "change \<Rightarrow> bool" where
  op_register: "register s = (i, a, s') \<Longrightarrow> act A s s'"
| op_read: "act A s (state_of (reader_step s r))"
| op_teardown: "act A s (teardown s)"
| op_forget: "act A s (forget m t i s)"
| op_on_exception: "act A s (on_exception m i e s)"
| op_other: "next_id s' = next_id s \<Longrightarrow> pending s' = pending s \<Longrightarrow> heap s' = heap s \<Longrightarrow>
     nfut s' = nfut s \<Longrightarrow> act A s s'"
| op_interrupted: "A c \<Longrightarrow> act A s (interrupted k c s)"

text \<open>
  The removal of an entry during the loop of a restart, the change that the client makes to
  its own table there: the reader in line 113, a waiter in lines 199 and 206.
\<close>

fun removal :: "change \<Rightarrow> bool" where
  "removal (Removes j) = True"
| "removal (Inserts j) = False"

text \<open>
  The actions of a client whose registrations are whole: lines 174 to 176 are one action,
  so no entry is inserted while a restart runs its loop.
\<close>

abbreviation op :: "client \<Rightarrow> client \<Rightarrow> bool" where
  "op \<equiv> act removal"

text \<open>The actions of a client whose restarts are never interrupted.\<close>

abbreviation calm :: "client \<Rightarrow> client \<Rightarrow> bool" where
  "calm \<equiv> act (\<lambda>c. False)"

text \<open>What an environment does to the restarts is within \<open>A\<close>.\<close>

definition within :: "(change \<Rightarrow> bool) \<Rightarrow> env \<Rightarrow> bool" where
  "within A E \<longleftrightarrow> (\<forall>r. case meddle E r of None \<Rightarrow> True | Some (k, c) \<Rightarrow> A c)"

text \<open>Every key of the table is at least \<open>n\<close>, and so is the next identifier.\<close>

definition keys_from :: "int \<Rightarrow> client \<Rightarrow> bool" where
  "keys_from n s \<longleftrightarrow> n \<le> next_id s \<and> list_all (\<lambda>(j, b). n \<le> j) (pending s)"

text \<open>
  The client \<open>waiting\<close> after the teardown of a restart and one new registration:
  request 3, future 2.
\<close>

definition after_restart :: client where
  "after_restart = snd (snd (register (teardown waiting)))"

text \<open>
  Every entry of the table has a key that \<^verbatim>\<open>_get_id\<close> has returned and holds a
  future that exists and is not done, and no two entries hold the same future.
\<close>

definition table_live :: "client \<Rightarrow> bool" where
  "table_live s \<longleftrightarrow>
     list_all (\<lambda>(j, b). j < next_id s \<and> b < nfut s \<and> heap s b = Pending) (pending s) \<and>
     distinct (map snd (pending s))"

subsection \<open>Concurrent callers and the write lock\<close>

text \<open>
  Where a thread stands in the straight path of \<^verbatim>\<open>_send_request\<close>, lines 174 to 194,
  with \<^verbatim>\<open>_get_id\<close> inlined. A value carries what the thread holds in its frame: the
  identifier \<open>i\<close>, the value loaded for the increment, the characters of the encoded
  line that are not written yet.
  \<^item> \<open>Start\<close>: before line 158, not holding the lock;
  \<^item> \<open>GetId_locked\<close>: inside \<^verbatim>\<open>with self._write_lock\<close>, before line 159;
  \<^item> \<open>GetId_read i\<close>: after \<^verbatim>\<open>i = self._next_id\<close>;
  \<^item> \<open>GetId_loaded i v\<close>: line 160 has loaded \<open>v\<close> and not stored yet;
  \<^item> \<open>GetId_stored i\<close>: line 160 has stored, before the return of line 161;
  \<^item> \<open>Have_id i\<close>: \<^verbatim>\<open>_get_id\<close> has returned and released the lock;
  \<^item> \<open>Registered i\<close>: after line 176, before the lock of line 186;
  \<^item> \<open>Encoding i\<close>: holding the lock, before line 187;
  \<^item> \<open>Writing i r\<close>: lines 188 and 189, with \<open>r\<close> still to write;
  \<^item> \<open>Sent i\<close>: the lock released, waiting in line 194.
\<close>

datatype pc =
    Start
  | GetId_locked
  | GetId_read int
  | GetId_loaded int int
  | GetId_stored int
  | Have_id int
  | Registered int
  | Encoding int
  | Writing int string
  | Sent int

text \<open>
  What the threads share: \<^verbatim>\<open>_write_lock\<close> with the thread that holds it,
  \<^verbatim>\<open>_next_id\<close>, the keys of \<^verbatim>\<open>_pending_requests\<close> and the characters that have
  reached the standard input of the subprocess. Three fields record the history:
  \<open>issued\<close>, the identifiers in the order in which \<^verbatim>\<open>_get_id\<close> returned them;
  \<open>completed\<close>, the identifiers of the requests whose line is written in full, in that
  order; \<open>cur\<close>, the characters written of the line that is being written.
\<close>

record shared =
  lock :: "nat option"
  counter :: int
  table :: "int list"
  wire :: string
  cur :: string
  completed :: "int list"
  issued :: "int list"

type_synonym conf = "shared \<times> (nat \<Rightarrow> pc)"

text \<open>
  One step of thread \<open>t\<close>. \<open>L i\<close> is the line that encodes the request whose identifier
  is \<open>i\<close>, \<^verbatim>\<open>json.dumps(request) + "\n"\<close>. A thread that asks for a lock that is held
  does not move. The write is taken one character at a time, which assumes nothing about
  how the pipe takes a line.
\<close>

fun tstep :: "(int \<Rightarrow> string) \<Rightarrow> nat \<Rightarrow> conf \<Rightarrow> conf" where
  "tstep L t (\<sigma>, pcs) =
     (case pcs t of
        Start \<Rightarrow>
          if lock \<sigma> = None then (\<sigma>\<lparr>lock := Some t\<rparr>, pcs(t := GetId_locked)) else (\<sigma>, pcs)
      | GetId_locked \<Rightarrow> (\<sigma>, pcs(t := GetId_read (counter \<sigma>)))
      | GetId_read i \<Rightarrow> (\<sigma>, pcs(t := GetId_loaded i (counter \<sigma>)))
      | GetId_loaded i v \<Rightarrow> (\<sigma>\<lparr>counter := v + 1\<rparr>, pcs(t := GetId_stored i))
      | GetId_stored i \<Rightarrow> (\<sigma>\<lparr>lock := None, issued := issued \<sigma> @ [i]\<rparr>, pcs(t := Have_id i))
      | Have_id i \<Rightarrow> (\<sigma>\<lparr>table := table \<sigma> @ [i]\<rparr>, pcs(t := Registered i))
      | Registered i \<Rightarrow>
          if lock \<sigma> = None then (\<sigma>\<lparr>lock := Some t\<rparr>, pcs(t := Encoding i)) else (\<sigma>, pcs)
      | Encoding i \<Rightarrow> (\<sigma>, pcs(t := Writing i (L i)))
      | Writing i rest \<Rightarrow>
          (case rest of
             c # cs \<Rightarrow> (\<sigma>\<lparr>wire := wire \<sigma> @ [c], cur := cur \<sigma> @ [c]\<rparr>, pcs(t := Writing i cs))
           | [] \<Rightarrow> (\<sigma>\<lparr>lock := None, cur := [], completed := completed \<sigma> @ [i]\<rparr>,
                    pcs(t := Sent i)))
      | Sent i \<Rightarrow> (\<sigma>, pcs))"

text \<open>A schedule is the list of the threads that step, in order.\<close>

definition run :: "(int \<Rightarrow> string) \<Rightarrow> nat list \<Rightarrow> conf \<Rightarrow> conf" where
  "run L sched c = fold (tstep L) sched c"

definition start :: "int \<Rightarrow> conf" where
  "start n = (\<lparr>lock = None, counter = n, table = [], wire = [], cur = [], completed = [],
              issued = []\<rparr>, \<lambda>t. Start)"

text \<open>The thread is inside a \<^verbatim>\<open>with self._write_lock\<close> block.\<close>

fun holds :: "pc \<Rightarrow> bool" where
  "holds GetId_locked = True"
| "holds (GetId_read i) = True"
| "holds (GetId_loaded i v) = True"
| "holds (GetId_stored i) = True"
| "holds (Encoding i) = True"
| "holds (Writing i r) = True"
| "holds p = False"

text \<open>The identifier that \<^verbatim>\<open>_get_id\<close> has returned to the thread.\<close>

fun id_of :: "pc \<Rightarrow> int option" where
  "id_of (Have_id i) = Some i"
| "id_of (Registered i) = Some i"
| "id_of (Encoding i) = Some i"
| "id_of (Writing i r) = Some i"
| "id_of (Sent i) = Some i"
| "id_of p = None"

text \<open>The identifier that the thread has entered in the table.\<close>

fun registered :: "pc \<Rightarrow> int option" where
  "registered (Registered i) = Some i"
| "registered (Encoding i) = Some i"
| "registered (Writing i r) = Some i"
| "registered (Sent i) = Some i"
| "registered p = None"

text \<open>The invariants of the schedules.\<close>

definition mutex :: "conf \<Rightarrow> bool" where
  "mutex c \<longleftrightarrow> (\<forall>t. holds (snd c t) \<longleftrightarrow> lock (fst c) = Some t)"

definition ids_ok :: "conf \<Rightarrow> bool" where
  "ids_ok c \<longleftrightarrow>
     sorted_wrt (<) (issued (fst c)) \<and>
     (\<forall>j \<in> set (issued (fst c)). j < counter (fst c)) \<and>
     (\<forall>t i. snd c t = GetId_read i \<longrightarrow> i = counter (fst c)) \<and>
     (\<forall>t i v. snd c t = GetId_loaded i v \<longrightarrow> i = counter (fst c) \<and> v = counter (fst c)) \<and>
     (\<forall>t i. snd c t = GetId_stored i \<longrightarrow>
        counter (fst c) = i + 1 \<and> (\<forall>j \<in> set (issued (fst c)). j < i)) \<and>
     (\<forall>t i. id_of (snd c t) = Some i \<longrightarrow> i \<in> set (issued (fst c))) \<and>
     (\<forall>t t' i. id_of (snd c t) = Some i \<longrightarrow> id_of (snd c t') = Some i \<longrightarrow> t = t')"

definition wire_ok :: "(int \<Rightarrow> string) \<Rightarrow> conf \<Rightarrow> bool" where
  "wire_ok L c \<longleftrightarrow>
     wire (fst c) = concat (map L (completed (fst c))) @ cur (fst c) \<and>
     (\<forall>t i r. snd c t = Writing i r \<longrightarrow> cur (fst c) @ r = L i) \<and>
     (\<forall>t. (\<forall>i r. snd c t \<noteq> Writing i r) \<longrightarrow> lock (fst c) = Some t \<longrightarrow> cur (fst c) = []) \<and>
     (lock (fst c) = None \<longrightarrow> cur (fst c) = []) \<and>
     (\<forall>t i. registered (snd c t) = Some i \<longrightarrow> i \<in> set (table (fst c))) \<and>
     (\<forall>i \<in> set (completed (fst c)). i \<in> set (table (fst c)))"

section \<open>The reader\<close>

lemmas phase_defs = register_def get_id_def new_future_def transmit_def await_def logs_def
  handle_message_def pop_def resolve_def note_notification_def on_exception_def forget_def
  teardown_def disturbed_def

lemma init_answering:
  "init (Suc (Suc (Suc (Suc n)))) answering 30 = Some (connected, Returns ())"
  by (simp add: init_def fresh_def answering_def connected_def phase_defs)

lemma waiting_eq:
  "waiting = connected\<lparr>next_id := 3, pending := [(2, 1)],
     heap := (heap connected)(1 := Pending), nfut := 2,
     stdin := stdin connected @ [(0, Request 2 ''tools/call'' (JObj []))],
     log := log connected @ [LogSent 2 ''tools/call'']\<rparr>"
  by (simp add: waiting_def connected_def answering_def phase_defs)

lemma waiting_facts:
  "map_of (pending waiting) 2 = Some 1" "heap waiting 1 = Pending" "pending waiting = [(2, 1)]"
  "reader_running waiting" "\<not> stop_event waiting" "proc waiting = Some 0" "next_id waiting = 3"
  "heap waiting (Suc 0) = Pending" "map_of (pending waiting) 2 = Some (Suc 0)"
  "pending waiting = [(2, Suc 0)]"
  by (simp_all add: waiting_eq connected_def)

lemma delete_miss: "map_of d i = None \<Longrightarrow> AList.delete i d = d"
  by (simp add: map_of_eq_None_iff)

lemma pop_hit: "map_of d i = Some a \<Longrightarrow> pop (Some i) d = (Some a, AList.delete i d)"
  by (simp add: pop_def)

lemma note_notification_id: "map_of resp ''id'' = Some v \<Longrightarrow> note_notification resp s = s"
  by (simp add: note_notification_def split: option.splits)

lemma handle_hit:
  assumes "map_of resp ''id'' = Some (JInt X)" "map_of (pending s) X = Some a"
  shows "handle_message s (JObj resp) =
     Continue (if \<not> is_done (heap s a)
               then s\<lparr>pending := AList.delete X (pending s), heap := (heap s)(a := resolve resp)\<rparr>
               else s\<lparr>pending := AList.delete X (pending s)\<rparr>)"
  using assms by (simp add: handle_message_def pop_hit note_notification_id)

lemma handle_miss:
  assumes "map_of resp ''id'' = Some rid" "dict_key rid = Inr k"
    "case k of None \<Rightarrow> True | Some i \<Rightarrow> map_of (pending s) i = None"
  shows "handle_message s (JObj resp) = Continue s"
  using assms
  by (cases rid; cases k)
     (auto simp add: handle_message_def delete_miss pop_def note_notification_id)

text \<open>A future that is done is never written again: not by the reader, not by a restart.\<close>

lemma done_stable_step: "is_done (heap s b) \<Longrightarrow> heap (state_of (reader_step s r)) b = heap s b"
  apply (cases r)
     apply (simp_all add: logs_def)
  apply (auto simp add: handle_message_def logs_def note_notification_def pop_def
      split: json.splits option.splits sum.splits prod.splits)
  done

lemma done_stable_loop: "is_done (heap s b) \<Longrightarrow> heap (reader_loop s rs) b = heap s b"
proof (induction rs arbitrary: s)
  case Nil
  then show ?case by simp
next
  case (Cons r rs)
  show ?case
  proof (cases "reader_step s r")
    case (Continue s')
    with done_stable_step[OF Cons.prems, of r] have "heap s' b = heap s b" by simp
    with Cons.prems Cons.IH[of s'] Continue show ?thesis by simp
  next
    case (Break s')
    with done_stable_step[OF Cons.prems, of r] have "heap s' b = heap s b" by simp
    with Break show ?thesis by simp
  qed
qed

lemma fail_all_done: "is_done (h b) \<Longrightarrow> fail_all d h b = h b"
  by (induction d h rule: fail_all.induct) auto

lemma done_stable_teardown: "is_done (heap s b) \<Longrightarrow> heap (teardown s) b = heap s b"
  by (simp add: teardown_def Let_def logs_def fail_all_done split: option.splits)

text \<open>
  Claim C4. A response whose id is \<open>X\<close>, read while the table maps \<open>X\<close> to a future that is
  not done: the loop continues; the entry of \<open>X\<close> leaves the table; the future gets the
  failure built from the error payload when the response has an error field, else the
  result of the response (an empty object when there is none); nothing else changes. The
  future is resolved once: it is done afterwards, and neither the reader, whatever it
  reads later, nor a restart writes it again.
\<close>

theorem C4_response_resolves_waiter:
  assumes "map_of resp ''id'' = Some (JInt X)"
    and "map_of (pending s) X = Some a"
    and "heap s a = Pending"
  shows "reader_step s (Json (JObj resp)) =
           Continue (s\<lparr>pending := AList.delete X (pending s),
                       heap := (heap s)(a :=
                         (case map_of resp ''error'' of
                            Some e \<Rightarrow> Failed (InnerMCPError e)
                          | None \<Rightarrow> (case map_of resp ''result'' of
                                       Some r \<Rightarrow> Result r
                                     | None \<Rightarrow> Result (JObj []))))\<rparr>)
       \<and> map_of (pending (state_of (reader_step s (Json (JObj resp))))) X = None
       \<and> is_done (heap (state_of (reader_step s (Json (JObj resp)))) a)
       \<and> (\<forall>rs. heap (reader_loop (state_of (reader_step s (Json (JObj resp)))) rs) a =
                heap (state_of (reader_step s (Json (JObj resp)))) a)
       \<and> heap (teardown (state_of (reader_step s (Json (JObj resp))))) a =
           heap (state_of (reader_step s (Json (JObj resp)))) a"
proof -
  let ?s' = "state_of (reader_step s (Json (JObj resp)))"
  have step: "reader_step s (Json (JObj resp)) =
      Continue (s\<lparr>pending := AList.delete X (pending s), heap := (heap s)(a := resolve resp)\<rparr>)"
    using assms by (simp add: handle_hit)
  have gone: "map_of (pending ?s') X = None"
    using step by (simp add: delete_conv)
  have fin: "is_done (heap ?s' a)"
    using step by (simp add: resolve_def split: option.splits)
  from step gone fin done_stable_loop[OF fin] done_stable_teardown[OF fin]
  show ?thesis by (simp add: resolve_def)
qed

theorem C4_witness:
  "map_of [(''id'', JInt 2), (''result'', JStr ''ok'')] ''id'' = Some (JInt 2)
   \<and> map_of (pending waiting) 2 = Some 1
   \<and> heap waiting 1 = Pending
   \<and> heap (state_of (reader_step waiting
        (Json (JObj [(''id'', JInt 2), (''result'', JStr ''ok'')])))) 1 = Result (JStr ''ok'')
   \<and> pending (state_of (reader_step waiting
        (Json (JObj [(''id'', JInt 2), (''result'', JStr ''ok'')])))) = []"
proof -
  have h1: "map_of [(''id'', JInt 2), (''result'', JStr ''ok'')] ''id'' = Some (JInt 2)"
    by simp
  note h2 = waiting_facts(1) and h3 = waiting_facts(2)
  from C4_response_resolves_waiter[OF h1 h2 h3] h1 h2 h3 show ?thesis
    by (simp add: waiting_facts)
qed

text \<open>
  Claim C10. A response whose id has a registered future that is not done, and that has
  neither an error field nor a result field, resolves the future with the empty object
  and removes its entry. A response whose id selects no entry of the table (an integer, a
  boolean or a string that no entry has, or null) changes nothing, not even the log, and
  the loop goes on with the next line.
\<close>

theorem C10_missing_fields_and_unknown_id:
  "(map_of resp ''id'' = Some (JInt X) \<and> map_of (pending s) X = Some a \<and> heap s a = Pending
      \<and> map_of resp ''error'' = None \<and> map_of resp ''result'' = None
    \<longrightarrow> reader_step s (Json (JObj resp)) =
          Continue (s\<lparr>pending := AList.delete X (pending s),
                      heap := (heap s)(a := Result (JObj []))\<rparr>))
   \<and> (map_of resp ''id'' = Some rid \<and> dict_key rid = Inr k
        \<and> (case k of None \<Rightarrow> True | Some i \<Rightarrow> map_of (pending s) i = None)
        \<and> reader_running s \<and> \<not> stop_event s \<and> proc s = Some g
      \<longrightarrow> reader_step s (Json (JObj resp)) = Continue s
          \<and> reader_loop s (Json (JObj resp) # rs) = reader_loop s rs)"
  by (auto simp add: handle_hit resolve_def handle_miss)

theorem C10_witness:
  "(map_of [(''id'', JInt 2)] ''id'' = Some (JInt 2) \<and> map_of (pending waiting) 2 = Some 1
      \<and> heap waiting 1 = Pending
      \<and> map_of [(''id'', JInt 2)] ''error'' = None \<and> map_of [(''id'', JInt 2)] ''result'' = None
      \<and> heap (state_of (reader_step waiting (Json (JObj [(''id'', JInt 2)])))) 1 = Result (JObj []))
   \<and> (map_of [(''id'', JInt 7), (''result'', JStr ''late'')] ''id'' = Some (JInt 7)
      \<and> dict_key (JInt 7) = Inr (Some 7) \<and> map_of (pending waiting) 7 = None
      \<and> reader_running waiting \<and> \<not> stop_event waiting \<and> proc waiting = Some 0
      \<and> reader_step waiting (Json (JObj [(''id'', JInt 7), (''result'', JStr ''late'')])) =
          Continue waiting
      \<and> reader_loop waiting [Json (JObj [(''id'', JInt 7), (''result'', JStr ''late'')]),
                              Json (JObj [(''id'', JInt 2)])] =
          reader_loop waiting [Json (JObj [(''id'', JInt 2)])])"
proof -
  have a: "map_of [(''id'', JInt 2)] ''id'' = Some (JInt 2) \<and> map_of (pending waiting) 2 = Some 1
      \<and> heap waiting 1 = Pending
      \<and> map_of [(''id'', JInt 2)] ''error'' = None \<and> map_of [(''id'', JInt 2)] ''result'' = None"
    by (simp add: waiting_facts)
  have b: "map_of [(''id'', JInt 7), (''result'', JStr ''late'')] ''id'' = Some (JInt 7)
      \<and> dict_key (JInt 7) = Inr (Some 7)
      \<and> (case Some 7 of None \<Rightarrow> True | Some i \<Rightarrow> map_of (pending waiting) i = None)
      \<and> reader_running waiting \<and> \<not> stop_event waiting \<and> proc waiting = Some 0"
    by (simp add: waiting_facts)
  from C10_missing_fields_and_unknown_id[where resp="[(''id'', JInt 2)]" and X=2 and s=waiting
      and a=1]
    C10_missing_fields_and_unknown_id[where resp="[(''id'', JInt 7), (''result'', JStr ''late'')]"
      and rid="JInt 7" and k="Some 7" and s=waiting and g=0
      and rs="[Json (JObj [(''id'', JInt 2)])]"] a b
  show ?thesis
    by (simp del: reader_step.simps reader_loop.simps)
qed

subsection \<open>Lines that are not messages\<close>

lemma reader_view_step:
  assumes "reader_view s t"
  shows "continues (reader_step s r) = continues (reader_step t r)
       \<and> reader_view (state_of (reader_step s r)) (state_of (reader_step t r))"
proof (cases r)
  case (Json v)
  with assms show ?thesis
    by (auto simp add: reader_view_def handle_message_def logs_def note_notification_def pop_def
        split: json.splits option.splits sum.splits prod.splits)
qed (use assms in \<open>simp_all add: reader_view_def logs_def\<close>)

lemma reader_view_loop: "reader_view s t \<Longrightarrow> reader_view (reader_loop s rs) (reader_loop t rs)"
proof (induction rs arbitrary: s t)
  case Nil
  then show ?case by simp
next
  case (Cons r rs)
  from reader_view_step[OF Cons.prems, of r]
  have c: "continues (reader_step s r) = continues (reader_step t r)"
    and v: "reader_view (state_of (reader_step s r)) (state_of (reader_step t r))"
    by simp_all
  have flags: "reader_running s = reader_running t" "stop_event s = stop_event t" "proc s = proc t"
    using Cons.prems by (simp_all add: reader_view_def)
  show ?case
  proof (cases "reader_step s r")
    case (Continue u)
    with c obtain u' where u': "reader_step t r = Continue u'"
      by (cases "reader_step t r") simp_all
    from v Continue u' have "reader_view u u'" by simp
    from Cons.IH[OF this] Continue u' flags Cons.prems show ?thesis
      by (simp del: reader_step.simps add: reader_view_def)
  next
    case (Break u)
    with c obtain u' where u': "reader_step t r = Break u'"
      by (cases "reader_step t r") simp_all
    from v Break u' have "reader_view u u'" by simp
    with Break u' flags Cons.prems show ?thesis
      by (simp del: reader_step.simps add: reader_view_def)
  qed
qed

text \<open>
  Claim C7, as the code has it. A line that is not JSON (\<^verbatim>\<open>json.loads\<close> raises
  \<^verbatim>\<open>JSONDecodeError\<close>) is logged and skipped: the loop goes on, and what it does with
  the lines that follow, to the futures, the table and its own liveness, is what it would
  have done without the line.
\<close>

theorem C7_invalid_json_skipped:
  assumes "reader_running s" and "\<not> stop_event s" and "proc s = Some g"
  shows "reader_step s (NotJson l) = Continue (logs (LogInvalidJson l) s)
       \<and> reader_loop s (NotJson l # rs) = reader_loop (logs (LogInvalidJson l) s) rs
       \<and> heap (reader_loop s (NotJson l # rs)) = heap (reader_loop s rs)
       \<and> pending (reader_loop s (NotJson l # rs)) = pending (reader_loop s rs)
       \<and> reader_running (reader_loop s (NotJson l # rs)) = reader_running (reader_loop s rs)"
proof -
  have loop: "reader_loop s (NotJson l # rs) = reader_loop (logs (LogInvalidJson l) s) rs"
    using assms by simp
  have "reader_view (logs (LogInvalidJson l) s) s"
    by (simp add: reader_view_def logs_def)
  from reader_view_loop[OF this, of rs] loop show ?thesis
    by (simp add: reader_view_def)
qed

theorem C7_witness:
  "reader_running waiting \<and> \<not> stop_event waiting \<and> proc waiting = Some 0
   \<and> reader_step waiting (NotJson ''not json'') = Continue (logs (LogInvalidJson ''not json'') waiting)
   \<and> heap (reader_loop waiting
        [NotJson ''not json'', Json (JObj [(''id'', JInt 2), (''result'', JStr ''ok'')])]) 1 =
      Result (JStr ''ok'')"
proof -
  have run: "reader_running waiting" and go: "\<not> stop_event waiting"
    and p: "proc waiting = Some 0"
    by (simp_all add: waiting_facts)
  have base: "heap (reader_loop waiting
      [Json (JObj [(''id'', JInt 2), (''result'', JStr ''ok'')])]) 1 = Result (JStr ''ok'')"
    by (simp add: waiting_facts handle_message_def pop_def note_notification_def resolve_def)
  note t = C7_invalid_json_skipped[OF run go p, of "''not json''"
      "[Json (JObj [(''id'', JInt 2), (''result'', JStr ''ok'')])]"]
  from t have st: "reader_step waiting (NotJson ''not json'') =
      Continue (logs (LogInvalidJson ''not json'') waiting)"
    by blast
  from t have h: "heap (reader_loop waiting
      [NotJson ''not json'', Json (JObj [(''id'', JInt 2), (''result'', JStr ''ok'')])]) =
      heap (reader_loop waiting [Json (JObj [(''id'', JInt 2), (''result'', JStr ''ok'')])])"
    by blast
  have final: "heap (reader_loop waiting
      [NotJson ''not json'', Json (JObj [(''id'', JInt 2), (''result'', JStr ''ok'')])]) 1 =
      Result (JStr ''ok'')"
    unfolding h by (rule base)
  from run go p st final show ?thesis
    by blast
qed

text \<open>
  Claim C7 as stated fails for a line that is JSON and not an object, such as \<^verbatim>\<open>5\<close>:
  \<^verbatim>\<open>resp.get\<close> raises \<^verbatim>\<open>AttributeError\<close>, the outer handler logs it and leaves the
  loop, and the response to request 2 that follows is never read. Without the line that
  response resolves the future.
\<close>

theorem C7_counterexample:
  "reader_running waiting \<and> \<not> stop_event waiting \<and> proc waiting = Some 0
   \<and> map_of (pending waiting) 2 = Some 1 \<and> heap waiting 1 = Pending
   \<and> reader_step waiting (Json (JInt 5)) = Break (logs (LogReaderError AttributeError) waiting)
   \<and> \<not> reader_running (reader_loop waiting
        [Json (JInt 5), Json (JObj [(''id'', JInt 2), (''result'', JStr ''ok'')])])
   \<and> heap (reader_loop waiting
        [Json (JInt 5), Json (JObj [(''id'', JInt 2), (''result'', JStr ''ok'')])]) 1 = Pending
   \<and> heap (reader_loop waiting
        [Json (JObj [(''id'', JInt 2), (''result'', JStr ''ok'')])]) 1 = Result (JStr ''ok'')"
  by (simp add: waiting_facts handle_message_def pop_def note_notification_def resolve_def
      logs_def)

text \<open>
  What line \<^verbatim>\<open>5\<close> does, every line does that is JSON and not an object, and every object
  does whose id cannot be a key of the table: the body raises, the handler of lines 124 to
  126 logs the error and the loop ends, whatever lines follow.
\<close>

lemma non_object_ends_loop:
  assumes "reader_running s" "\<not> stop_event s" "proc s = Some g" "\<And>resp. v \<noteq> JObj resp"
  shows "reader_step s (Json v) = Break (logs (LogReaderError AttributeError) s)"
    and "reader_loop s (Json v # rs) =
           (logs (LogReaderError AttributeError) s)\<lparr>reader_running := False\<rparr>"
  using assms by (cases v; simp add: handle_message_def)+

lemma unhashable_id_ends_loop:
  assumes "reader_running s" "\<not> stop_event s" "proc s = Some g"
    "map_of resp ''id'' = Some rid" "dict_key rid = Inl e"
  shows "reader_step s (Json (JObj resp)) = Break (logs (LogReaderError e) s)"
    and "reader_loop s (Json (JObj resp) # rs) =
           (logs (LogReaderError e) s)\<lparr>reader_running := False\<rparr>"
  using assms by (cases rid; simp add: handle_message_def)+

section \<open>The handshake\<close>

text \<open>A request that is written and not answered before its deadline goes to the restart.\<close>

lemma calm_undisturbed: "meddle E (restarts s) = None \<Longrightarrow> disturbed E s = None"
  by (simp add: disturbed_def)

lemma send_request_unanswered:
  assumes "proc s = Some g" "\<not> exited E g (next_id s)" "write_ok E g (next_id s)"
    "reads E g (next_id s) = []"
  shows "send_request (Suc n) E method params tmo s =
     (case restart_subprocess n E
             (forget method (case tmo of None \<Rightarrow> timeout s | Some t \<Rightarrow> t) (next_id s)
                (logs (LogSent (next_id s) method)
                   (s\<lparr>next_id := next_id s + 1,
                      heap := (heap s)(nfut s := Pending), nfut := nfut s + 1,
                      pending := AList.update (next_id s) (nfut s) (pending s),
                      stdin := stdin s @ [(g, Request (next_id s) method params)]\<rparr>))) of
        None \<Rightarrow> None
      | Some (s5, Raises e) \<Rightarrow> Some (s5, Raises e)
      | Some (s5, Returns u) \<Rightarrow> Some (s5, Raises (TimeoutError method)))"
  using assms
  by (cases tmo)
     (simp_all add: register_def get_id_def new_future_def transmit_def await_def logs_def Let_def)

text \<open>
  Against a subprocess that never answers, and with no other thread at the table,
  \<^verbatim>\<open>_start_subprocess\<close> does not return within any bound on the depth of the calls: the
  handshake times out, the handler of the timeout restarts, the restart starts a process
  and its handshake times out again.
\<close>

lemma never_answered_never_returns:
  assumes "\<And>g. popen_ok E g" "\<And>g i. \<not> exited E g i" "\<And>g i. write_ok E g i"
    "\<And>g i. reads E g i = []" "\<And>r. meddle E r = None"
  shows "start_subprocess n E s = None"
proof (induction n arbitrary: s rule: less_induct)
  case (less n)
  consider "n = 0" | "n = Suc 0" | "n = Suc (Suc 0)" | "n = Suc (Suc (Suc 0))"
    | m where "n = Suc (Suc (Suc (Suc m)))"
    by (metis not0_implies_Suc)
  then show ?case
  proof cases
    case 5
    have "start_subprocess m E t = None" for t
      using less.IH[of m] 5 by simp
    with 5 show ?thesis
      by (simp add: assms calm_undisturbed send_request_unanswered del: send_request.simps(2))
  qed (simp_all add: assms calm_undisturbed send_request_unanswered del: send_request.simps(2))
qed

text \<open>
  One turn of that recursion: four calls deeper the same method runs again, on a client
  that has restarted once more and has created one more process, and the outer call
  returns only if that inner one does.
\<close>

lemma never_answered_respawns:
  assumes "\<And>g. popen_ok E g" "\<And>g i. \<not> exited E g i" "\<And>g i. write_ok E g i"
    "\<And>g i. reads E g i = []" "\<And>r. meddle E r = None"
  shows "\<exists>t. (start_subprocess (Suc (Suc (Suc (Suc n)))) E s = None
                 \<longleftrightarrow> start_subprocess n E t = None)
           \<and> restarts t = restarts s + 1 \<and> spawned t = spawned s + 1
           \<and> terminated t = terminated s @ [spawned s]"
  by (rule exI[where x = "teardown (forget ''initialize'' 60 (next_id s)
        (logs (LogSent (next_id s) ''initialize'')
          ((logs LogStarting s)\<lparr>spawned := spawned s + 1, proc := Some (spawned s),
             stop_event := False, reader_running := True,
             next_id := next_id s + 1,
             heap := (heap s)(nfut s := Pending), nfut := nfut s + 1,
             pending := AList.update (next_id s) (nfut s) (pending s),
             stdin := stdin s @ [(spawned s, Request (next_id s) ''initialize'' init_params)]\<rparr>)))"])
     (simp add: assms calm_undisturbed send_request_unanswered teardown_def forget_def logs_def
       Let_def del: send_request.simps(2) split: option.splits prod.splits outcome.splits)

text \<open>
  The sibling path: a handshake that is answered with an error is fatal. The error reaches
  the caller of \<^verbatim>\<open>__init__\<close>, after one process and no restart.
\<close>

lemma handshake_error_is_fatal:
  assumes "popen_ok E 0" "\<not> exited E 0 1" "write_ok E 0 1"
    "reads E 0 1 = [Json (JObj [(''id'', JInt 1), (''error'', e)])]"
  shows "\<exists>s. init (Suc (Suc (Suc n))) E tmo = Some (s, Raises (InnerMCPError e))
           \<and> spawned s = 1 \<and> restarts s = 0 \<and> terminated s = []"
  using assms by (simp add: init_def fresh_def phase_defs)

text \<open>
  Claim C2 fails on the code. With a subprocess that never answers \<^verbatim>\<open>initialize\<close>, the
  constructor returns for no bound on the depth of the calls: the timeout of the handshake
  is not raised to the caller, it starts the next process and the next handshake.
\<close>

theorem C2_silent_handshake_never_returns: "init n silent tmo = None"
  by (simp add: init_def never_answered_never_returns silent_def)

section \<open>Timeouts, exits and restarts\<close>

lemma set_delete_subset: "set (AList.delete k d) \<subseteq> set d"
  by (auto simp add: AList.delete_eq)

lemma reader_step_frame: "frame s (state_of (reader_step s r))"
proof (cases r)
  case (Json v)
  have "set (AList.delete k (pending s)) \<subseteq> set (pending s)" for k
    by (rule set_delete_subset)
  with Json show ?thesis
    by (auto simp add: frame_def handle_message_def logs_def note_notification_def pop_def
        split: json.splits option.splits sum.splits prod.splits)
qed (simp_all add: frame_def logs_def)








lemma set_update_subset: "set (AList.update k v d) \<subseteq> insert (k, v) (set d)"
  by (induction d) auto




lemma interrupted_next_id: "next_id (interrupted k c s) = next_id s"
  by (simp add: interrupted_def apply_change_def new_future_def Let_def logs_def
      split: option.splits change.splits)

lemma interrupted_heap:
  "b < nfut s \<Longrightarrow> heap (interrupted k c s) b = fail_all (take k (pending s)) (heap s) b"
  by (simp add: interrupted_def apply_change_def new_future_def Let_def logs_def
      split: option.splits change.splits)



text \<open>A future that is done stays as it is through an interrupted restart as well.\<close>

lemma done_stable_interrupted:
  "is_done (heap s b) \<Longrightarrow> b < nfut s \<Longrightarrow> heap (interrupted k c s) b = heap s b"
  by (simp add: interrupted_heap fail_all_done)



lemma disturbed_bound: "disturbed E s = Some (k, c) \<Longrightarrow> k \<le> length (pending s) \<and> resizes c (pending s)"
  by (auto simp add: disturbed_def split: option.splits if_splits)

section \<open>A call whose deadline passes\<close>




text \<open>
  The handshake of the new process can time out as well. Then the handler of that timeout
  restarts again, inside the first restart: the call that timed out has caused two
  restarts, and what its caller receives is the timeout of the handshake.
\<close>

lemma timeout_then_silent_handshake:
  "\<exists>s'. send_request (Suc (Suc (Suc (Suc (Suc (Suc (Suc (Suc (Suc 0))))))))) stalled_twice
           ''tools/call'' (JObj []) None waiting = Some (s', Raises (TimeoutError ''initialize''))
        \<and> restarts s' = 2 \<and> spawned s' = 3 \<and> terminated s' = [0, 1]"
  by (simp add: waiting_eq connected_def stalled_twice_def phase_defs)





section \<open>A call that finds the subprocess gone\<close>




text \<open>
  The new process can answer the handshake and then leave the request without an answer.
  Then the call that found the exit times out and restarts again: it has caused two
  restarts and three processes, and its caller receives \<^verbatim>\<open>TimeoutError\<close>.
\<close>

lemma exit_then_unanswered:
  "\<exists>s'. send_request (Suc (Suc (Suc (Suc (Suc (Suc (Suc (Suc (Suc 0))))))))) crashed_then_stalled
           ''tools/call'' (JObj []) None waiting = Some (s', Raises (TimeoutError ''tools/call''))
        \<and> restarts s' = 2 \<and> spawned s' = 3 \<and> terminated s' = [0, 1]"
  by (simp add: waiting_eq connected_def crashed_then_stalled_def phase_defs)





section \<open>Identifiers and generations\<close>

lemma op_logs: "act A s (logs e s)"
  by (rule op_other) (simp_all add: logs_def)

lemma op_transmit: "transmit E method params i s = Inr s' \<Longrightarrow> act A s s'"
  by (rule op_other) (auto simp add: transmit_def logs_def split: option.splits if_splits)

lemma ops_reader_loop: "(act A)\<^sup>*\<^sup>* s (reader_loop s rs)"
proof (induction rs arbitrary: s)
  case Nil
  show ?case by simp
next
  case (Cons r rs)
  have stop: "act A s (s\<lparr>reader_running := False\<rparr>)" for s :: client
    by (rule op_other) simp_all
  have st: "act A s (state_of (reader_step s r))" by (rule op_read)
  show ?case
  proof (cases "reader_step s r")
    case (Continue u)
    with st have "act A s u" by simp
    with Cons.IH[of u] have "(act A)\<^sup>*\<^sup>* s (reader_loop u rs)"
      by (rule converse_rtranclp_into_rtranclp[rotated])
    with Continue stop[of s] show ?thesis
      by (auto simp del: reader_step.simps)
  next
    case (Break u)
    with st have "act A s u" by simp
    with stop[of u] have "(act A)\<^sup>*\<^sup>* s (u\<lparr>reader_running := False\<rparr>)"
      by auto
    with Break stop[of s] show ?thesis
      by (auto simp del: reader_step.simps)
  qed
qed

lemma ops_await: "(act A)\<^sup>*\<^sup>* s (await E i s)"
  by (simp add: await_def ops_reader_loop split: option.splits)

text \<open>Every call is a sequence of these actions.\<close>

lemma ops_step: "(act A)\<^sup>*\<^sup>* s t \<Longrightarrow> act A t u \<Longrightarrow> (act A)\<^sup>*\<^sup>* s u"
  by (rule rtranclp.rtrancl_into_rtrancl)

lemma ops_send_request:
  assumes restart: "\<And>s s' out. restart_subprocess n E s = Some (s', out) \<Longrightarrow> (act A)\<^sup>*\<^sup>* s s'"
    and call: "send_request (Suc n) E method params tmo s = Some (s', out)"
  shows "(act A)\<^sup>*\<^sup>* s s'"
proof (cases "proc s")
  case None
  with call show ?thesis by simp
next
  case (Some g)
  obtain s1 o1 where polled: "(if exited E g (next_id s)
        then restart_subprocess n E (logs LogProcessDied s) else Some (s, Returns ())) =
        Some (s1, o1)"
    using call Some by (auto split: option.splits)
  have to1: "(act A)\<^sup>*\<^sup>* s s1"
  proof (cases "exited E g (next_id s)")
    case True
    with polled have "(act A)\<^sup>*\<^sup>* (logs LogProcessDied s) s1" by (auto intro: restart)
    with op_logs[of A s LogProcessDied] show ?thesis
      by (rule converse_rtranclp_into_rtranclp)
  next
    case False
    with polled show ?thesis by simp
  qed
  show ?thesis
  proof (cases o1)
    case (Raises e)
    with call Some polled have "s' = s1" by simp
    with to1 show ?thesis by simp
  next
    case (Returns u)
    obtain i a s2 where reg: "register s1 = (i, a, s2)" by (cases "register s1") auto
    have to2: "(act A)\<^sup>*\<^sup>* s s2" using to1 op_register[OF reg] by (rule ops_step)
    show ?thesis
    proof (cases "transmit E method params i s2")
      case (Inl e)
      with call Some polled Returns reg have "s' = on_exception method i e s2" by simp
      with to2 op_on_exception[of A s2 "method" i e] show ?thesis by (auto intro: ops_step)
    next
      case (Inr s3)
      let ?s4 = "await E i s3"
      have to4: "(act A)\<^sup>*\<^sup>* s ?s4"
        using to2 op_transmit[OF Inr] ops_await[of A s3 E i] by (meson ops_step rtranclp_trans)
      show ?thesis
      proof (cases "heap ?s4 a")
        case (Result r)
        with call Some polled Returns reg Inr have "s' = ?s4" by (simp add: Let_def)
        with to4 show ?thesis by simp
      next
        case (Failed e)
        with call Some polled Returns reg Inr have "s' = on_exception method i e ?s4"
          by (simp add: Let_def)
        with to4 op_on_exception[of A ?s4 "method" i e] show ?thesis by (auto intro: ops_step)
      next
        case Pending
        let ?s5 = "forget method (case tmo of None \<Rightarrow> timeout ?s4 | Some t \<Rightarrow> t) i ?s4"
        from call Some polled Returns reg Inr Pending
        obtain o5 where "restart_subprocess n E ?s5 = Some (s', o5)"
          by (auto simp add: Let_def split: option.splits outcome.splits)
        then have "(act A)\<^sup>*\<^sup>* ?s5 s'" by (rule restart)
        moreover have "(act A)\<^sup>*\<^sup>* s ?s5" using to4 op_forget by (rule ops_step)
        ultimately show ?thesis by (rule rtranclp_trans[rotated])
      qed
    qed
  qed
qed

lemma ops_start_subprocess:
  assumes init: "\<And>s s' out. initialize n E s = Some (s', out) \<Longrightarrow> (act A)\<^sup>*\<^sup>* s s'"
    and call: "start_subprocess (Suc n) E s = Some (s', out)"
  shows "(act A)\<^sup>*\<^sup>* s s'"
proof -
  let ?s1 = "(logs LogStarting s)\<lparr>spawned := spawned s + 1\<rparr>"
  let ?s2 = "?s1\<lparr>proc := Some (spawned s), stop_event := False, reader_running := True\<rparr>"
  have a: "act A s ?s1" "act A s ?s2" by (rule op_other; simp add: logs_def)+
  show ?thesis
  proof (cases "popen_ok E (spawned s)")
    case False
    with call have "s' = logs (LogStartFailed OSError) ?s1" by (simp add: Let_def)
    with a(1) op_logs[of A ?s1] show ?thesis by (auto intro: ops_step)
  next
    case True
    with call obtain s2 o2 where i: "initialize n E ?s2 = Some (s2, o2)"
      by (auto simp add: Let_def split: option.splits)
    from a(2) init[OF i] have to2: "(act A)\<^sup>*\<^sup>* s s2" by (rule converse_rtranclp_into_rtranclp)
    show ?thesis
    proof (cases o2)
      case (Returns u)
      with call True i have "s' = s2" by (simp add: Let_def)
      with to2 show ?thesis by simp
    next
      case (Raises e)
      with call True i have "s' = logs (LogStartFailed e) s2" by (simp add: Let_def)
      with to2 op_logs[of A s2] show ?thesis by (auto intro: ops_step)
    qed
  qed
qed

lemma ops_initialize:
  assumes send: "\<And>method params tmo s s' out.
        send_request n E method params tmo s = Some (s', out) \<Longrightarrow> (act A)\<^sup>*\<^sup>* s s'"
    and call: "initialize (Suc n) E s = Some (s', out)"
  shows "(act A)\<^sup>*\<^sup>* s s'"
proof -
  from call obtain s1 o1 where r: "send_request n E ''initialize'' init_params (Some 60) s = Some (s1, o1)"
    by (auto split: option.splits)
  have to1: "(act A)\<^sup>*\<^sup>* s s1" by (rule send[OF r])
  have n: "act A s1 (s1\<lparr>stdin := stdin s1 @ [m]\<rparr>)" for m
    by (rule op_other) simp_all
  from call r have "(\<exists>e. s' = logs (LogInitFailed e) s1)
      \<or> (\<exists>m. s' = logs LogInitialized (s1\<lparr>stdin := stdin s1 @ [m]\<rparr>))"
    by (auto split: outcome.splits option.splits if_splits)
  then show ?thesis
  proof
    assume "\<exists>e. s' = logs (LogInitFailed e) s1"
    with to1 op_logs[of A s1] show ?thesis by (auto intro: ops_step)
  next
    assume "\<exists>m. s' = logs LogInitialized (s1\<lparr>stdin := stdin s1 @ [m]\<rparr>)"
    then obtain m where s': "s' = logs LogInitialized (s1\<lparr>stdin := stdin s1 @ [m]\<rparr>)"
      by blast
    from to1 n[of m] have "(act A)\<^sup>*\<^sup>* s (s1\<lparr>stdin := stdin s1 @ [m]\<rparr>)" by (rule ops_step)
    from this op_logs have "(act A)\<^sup>*\<^sup>* s (logs LogInitialized (s1\<lparr>stdin := stdin s1 @ [m]\<rparr>))"
      by (rule ops_step)
    with s' show ?thesis by simp
  qed
qed

lemma calls_are_acts:
  "(\<forall>E method params tmo s s' out. within A E \<longrightarrow>
      send_request n E method params tmo s = Some (s', out) \<longrightarrow> (act A)\<^sup>*\<^sup>* s s')
   \<and> (\<forall>E s s' out. within A E \<longrightarrow>
      restart_subprocess n E s = Some (s', out) \<longrightarrow> (act A)\<^sup>*\<^sup>* s s')
   \<and> (\<forall>E s s' out. within A E \<longrightarrow>
      start_subprocess n E s = Some (s', out) \<longrightarrow> (act A)\<^sup>*\<^sup>* s s')
   \<and> (\<forall>E s s' out. within A E \<longrightarrow>
      initialize n E s = Some (s', out) \<longrightarrow> (act A)\<^sup>*\<^sup>* s s')"
proof (induction n)
  case 0
  show ?case by simp
next
  case (Suc n)
  then have ih1: "\<And>E method params tmo s s' out. within A E \<Longrightarrow>
        send_request n E method params tmo s = Some (s', out) \<Longrightarrow> (act A)\<^sup>*\<^sup>* s s'"
    and ih2: "\<And>E s s' out. within A E \<Longrightarrow>
        restart_subprocess n E s = Some (s', out) \<Longrightarrow> (act A)\<^sup>*\<^sup>* s s'"
    and ih3: "\<And>E s s' out. within A E \<Longrightarrow>
        start_subprocess n E s = Some (s', out) \<Longrightarrow> (act A)\<^sup>*\<^sup>* s s'"
    and ih4: "\<And>E s s' out. within A E \<Longrightarrow>
        initialize n E s = Some (s', out) \<Longrightarrow> (act A)\<^sup>*\<^sup>* s s'"
    by blast+
  have a: "(act A)\<^sup>*\<^sup>* s s'"
    if "within A E" "send_request (Suc n) E m p t s = Some (s', out)" for E m p t s s' out
    using ih2[OF that(1)] that(2) by (rule ops_send_request)
  have b: "(act A)\<^sup>*\<^sup>* s s'"
    if w: "within A E" and r: "restart_subprocess (Suc n) E s = Some (s', out)" for E s s' out
  proof -
    from r have "start_subprocess n E (teardown s) = Some (s', out)
        \<or> (\<exists>k c. meddle E (restarts s) = Some (k, c) \<and> s' = interrupted k c s)"
      by (auto simp add: disturbed_def split: option.splits if_splits)
    then show ?thesis
    proof
      assume "start_subprocess n E (teardown s) = Some (s', out)"
      from op_teardown[of A s] ih3[OF w this] show ?thesis
        by (rule converse_rtranclp_into_rtranclp)
    next
      assume "\<exists>k c. meddle E (restarts s) = Some (k, c) \<and> s' = interrupted k c s"
      then obtain k c where m: "meddle E (restarts s) = Some (k, c)" and s': "s' = interrupted k c s"
        by blast
      from w m have "A c" by (auto simp add: within_def split: option.splits dest: spec[of _ "restarts s"])
      then have "act A s (interrupted k c s)" by (rule op_interrupted)
      with s' show ?thesis by blast
    qed
  qed
  have c: "(act A)\<^sup>*\<^sup>* s s'"
    if "within A E" "start_subprocess (Suc n) E s = Some (s', out)" for E s s' out
    using ih4[OF that(1)] that(2) by (rule ops_start_subprocess)
  have d: "(act A)\<^sup>*\<^sup>* s s'"
    if "within A E" "initialize (Suc n) E s = Some (s', out)" for E s s' out
    using ih1[OF that(1)] that(2) by (rule ops_initialize)
  from a b c d show ?case by blast
qed

lemma within_all: "within (\<lambda>c. True) E"
  by (simp add: within_def split: option.splits)

lemma within_calm: "(\<And>r. meddle E r = None) \<Longrightarrow> within A E"
  by (simp add: within_def)

lemma register_eq:
  "register s = (next_id s, nfut s,
     s\<lparr>next_id := next_id s + 1, heap := (heap s)(nfut s := Pending), nfut := nfut s + 1,
       pending := AList.update (next_id s) (nfut s) (pending s)\<rparr>)"
  by (simp add: register_def get_id_def new_future_def)

lemma register_next:
  "register s = (i, a, s') \<Longrightarrow> i = next_id s \<and> next_id s' = next_id s + 1"
  by (auto simp add: register_eq)

lemma next_id_teardown: "next_id (teardown s) = next_id s"
  by (simp add: teardown_def Let_def logs_def split: option.splits)

lemma pending_teardown: "pending (teardown s) = []"
  by (simp add: teardown_def Let_def logs_def split: option.splits)

lemma pending_interrupted:
  "pending (interrupted k (Removes j) s) = AList.delete j (pending s)"
  by (simp add: interrupted_def apply_change_def Let_def logs_def split: option.splits)

lemma op_next_id: "act A s s' \<Longrightarrow> next_id s \<le> next_id s'"
proof (induction rule: act.induct)
  case (op_read s r)
  from reader_step_frame[of s r] show ?case by (simp add: frame_def)
qed (auto simp add: register_eq next_id_teardown interrupted_next_id forget_def
      on_exception_def logs_def Let_def)

lemma ops_next_id: "(act A)\<^sup>*\<^sup>* s s' \<Longrightarrow> next_id s \<le> next_id s'"
  by (induction rule: rtranclp_induct) (auto dest: op_next_id)

lemma keys_from_iff: "keys_from n s \<longleftrightarrow> n \<le> next_id s \<and> (\<forall>(j, b) \<in> set (pending s). n \<le> j)"
  by (simp add: keys_from_def list_all_iff)

lemma op_keys_from: "op s s' \<Longrightarrow> keys_from n s \<Longrightarrow> keys_from n s'"
proof (induction rule: act.induct)
  case (op_register s i a s')
  with set_update_subset[of "next_id s" "nfut s" "pending s"] show ?case
    by (auto simp add: register_eq keys_from_iff)
next
  case (op_read s r)
  from reader_step_frame[of s r] op_read show ?case
    by (auto simp add: frame_def keys_from_iff)
next
  case (op_teardown s)
  then show ?case by (simp add: keys_from_iff next_id_teardown pending_teardown)
next
  case (op_forget s m t i)
  with set_delete_subset[of i "pending s"] show ?case
    by (auto simp add: keys_from_iff forget_def logs_def Let_def)
next
  case (op_on_exception s m i e)
  with set_delete_subset[of i "pending s"] show ?case
    by (auto simp add: keys_from_iff on_exception_def logs_def Let_def)
next
  case (op_other s' s)
  then show ?case by (simp add: keys_from_iff)
next
  case (op_interrupted c s k)
  then obtain j where c: "c = Removes j" by (cases c) simp_all
  from op_interrupted set_delete_subset[of j "pending s"] show ?case
    unfolding c by (auto simp add: keys_from_iff interrupted_next_id pending_interrupted)
qed

lemma ops_keys_from: "op\<^sup>*\<^sup>* s s' \<Longrightarrow> keys_from n s \<Longrightarrow> keys_from n s'"
  by (induction rule: rtranclp_induct) (auto dest: op_keys_from)

lemma after_restart_eq:
  "after_restart = (teardown waiting)\<lparr>next_id := 4,
     heap := (heap (teardown waiting))(2 := Pending), nfut := 3, pending := [(3, 2)]\<rparr>"
  "next_id (teardown waiting) = 3" "nfut (teardown waiting) = 2" "pending (teardown waiting) = []"
  by (simp_all add: after_restart_def register_eq teardown_def waiting_eq connected_def logs_def)

lemma example_ops:
  "register connected = (2, 1, snd (snd (register connected)))"
  "op\<^sup>*\<^sup>* (snd (snd (register connected))) waiting"
  "op\<^sup>*\<^sup>* (teardown waiting) after_restart"
  "register (teardown waiting) = (3, 2, after_restart)"
proof -
  show r: "register connected = (2, 1, snd (snd (register connected)))"
    by (simp add: register_eq connected_def)
  have "op (snd (snd (register connected))) waiting"
    by (rule op_other) (simp_all add: waiting_eq register_eq connected_def)
  then show "op\<^sup>*\<^sup>* (snd (snd (register connected))) waiting" by blast
  show r': "register (teardown waiting) = (3, 2, after_restart)"
    by (simp add: after_restart_def register_eq after_restart_eq(2,3))
  from op_register[OF r'] show "op\<^sup>*\<^sup>* (teardown waiting) after_restart" by blast
qed

text \<open>
  Claim C1. The code keeps no generation tag; identifiers are never reused and a restart
  empties the table. So an identifier \<open>X\<close> that was registered before a restart is the
  key of no entry afterwards, whatever the client does after the restart: calls, reads,
  more restarts. A response that carries \<open>X\<close> (as an integer, or as the boolean that
  Python compares equal to it), read by any reader after the restart, finds no entry: the
  client is left as it is, no future is resolved, and the loop goes on.
\<close>

theorem C1_stale_response_resolves_nothing:
  assumes before: "register s0 = (X, a, s1)" "op\<^sup>*\<^sup>* s1 s"
    and after: "op\<^sup>*\<^sup>* (teardown s) s'"
    and late: "map_of resp ''id'' = Some rid" "dict_key rid = Inr (Some X)"
  shows "reader_step s' (Json (JObj resp)) = Continue s'
       \<and> map_of (pending s') X = None
       \<and> heap (state_of (reader_step s' (Json (JObj resp)))) = heap s'"
proof -
  from register_next[OF before(1)] have "X = next_id s0" "next_id s1 = next_id s0 + 1"
    by simp_all
  with ops_next_id[OF before(2)] have x: "X < next_id s" by simp
  have "keys_from (next_id s) (teardown s)"
    by (simp add: keys_from_iff next_id_teardown pending_teardown)
  from ops_keys_from[OF after this] have "\<forall>(j, b) \<in> set (pending s'). next_id s \<le> j"
    by (simp add: keys_from_iff)
  with x have "X \<notin> fst ` set (pending s')" by force
  then have none: "map_of (pending s') X = None" by (simp add: map_of_eq_None_iff)
  then have "case Some X of None \<Rightarrow> True | Some i \<Rightarrow> map_of (pending s') i = None" by simp
  from handle_miss[OF late this] none show ?thesis by simp
qed

theorem C1_witness:
  "register connected = (2, 1, snd (snd (register connected)))
   \<and> op\<^sup>*\<^sup>* (snd (snd (register connected))) waiting
   \<and> op\<^sup>*\<^sup>* (teardown waiting) after_restart
   \<and> map_of [(''id'', JInt 2), (''result'', JStr ''late'')] ''id'' = Some (JInt 2)
   \<and> dict_key (JInt 2) = Inr (Some 2)
   \<and> map_of (pending after_restart) 3 = Some 2 \<and> heap after_restart 2 = Pending
   \<and> reader_step after_restart (Json (JObj [(''id'', JInt 2), (''result'', JStr ''late'')])) =
       Continue after_restart"
proof -
  have l: "map_of [(''id'', JInt 2), (''result'', JStr ''late'')] ''id'' = Some (JInt 2)"
    "dict_key (JInt 2) = Inr (Some 2)"
    by simp_all
  have p: "map_of (pending after_restart) 3 = Some 2" "heap after_restart 2 = Pending"
    by (simp_all add: after_restart_eq)
  from C1_stale_response_resolves_nothing[OF example_ops(1,2,3) l] example_ops(1,2,3) l p
  show ?thesis
    by blast
qed

text \<open>
  Claim C9. \<^verbatim>\<open>_next_id\<close> is written by \<^verbatim>\<open>__init__\<close> and by \<^verbatim>\<open>_get_id\<close> only. Of two
  registrations of one client, the later one gets the greater identifier, whatever
  happens between them: calls, reads, restarts. The teardown of a restart leaves the
  counter as it is, so the first identifier after a restart is the next one, and no
  restart, however it ends, lowers the counter.
\<close>

theorem C9_ids_increase_across_restarts:
  assumes "register s = (i, a, s1)" and "op\<^sup>*\<^sup>* s1 s2" and "register s2 = (j, b, s3)"
  shows "i < j \<and> next_id (teardown s2) = next_id s2
       \<and> fst (register (teardown s2)) = next_id s2
       \<and> (\<forall>n E t out. restart_subprocess n E s2 = Some (t, out) \<longrightarrow> next_id s2 \<le> next_id t)"
proof -
  from register_next[OF assms(1)] have "i = next_id s" "next_id s1 = next_id s + 1" by simp_all
  moreover from register_next[OF assms(3)] have "j = next_id s2" by simp
  moreover note ops_next_id[OF assms(2)]
  moreover have "next_id s2 \<le> next_id t" if "restart_subprocess n E s2 = Some (t, out)"
    for n E t out
  proof -
    from calls_are_acts[of "\<lambda>c. True" n] within_all[of E] that
    have "(act (\<lambda>c. True))\<^sup>*\<^sup>* s2 t" by blast
    then show ?thesis by (rule ops_next_id)
  qed
  ultimately show ?thesis by (simp add: next_id_teardown register_eq)
qed

theorem C9_witness:
  "register connected = (2, 1, snd (snd (register connected)))
   \<and> op\<^sup>*\<^sup>* (snd (snd (register connected))) (teardown waiting)
   \<and> register (teardown waiting) = (3, 2, after_restart)
   \<and> (2 :: int) < 3 \<and> next_id (teardown waiting) = 3
   \<and> (\<exists>t. restart_subprocess (Suc (Suc (Suc (Suc 0)))) answering (teardown waiting) =
             Some (t, Returns ())
          \<and> next_id (teardown waiting) \<le> next_id t)"
proof -
  from example_ops(2) op_teardown[of removal waiting]
  have o: "op\<^sup>*\<^sup>* (snd (snd (register connected))) (teardown waiting)"
    by (rule rtranclp.rtrancl_into_rtrancl)
  note c = C9_ids_increase_across_restarts[OF example_ops(1) o example_ops(4)]
  obtain t where r: "restart_subprocess (Suc (Suc (Suc (Suc 0)))) answering (teardown waiting) =
      Some (t, Returns ())"
    by (simp add: waiting_eq connected_def answering_def phase_defs)
  with c have "next_id (teardown waiting) \<le> next_id t" by blast
  with r have "\<exists>t. restart_subprocess (Suc (Suc (Suc (Suc 0)))) answering (teardown waiting) =
             Some (t, Returns ())
          \<and> next_id (teardown waiting) \<le> next_id t"
    by blast
  with c example_ops(1,4) o after_restart_eq(2) show ?thesis
    by blast
qed

section \<open>The futures of the table\<close>

text \<open>
  In every state that a client reaches from \<^verbatim>\<open>__init__\<close> by the actions above, as long
  as no restart is interrupted, a future that the table holds is not done: a registered
  waiter is a waiter that still waits. This is the state in which a response finds the
  waiter it resolves. An interrupted restart leaves in the table the futures that it has
  failed, until their waiters remove them.
\<close>

lemma table_live_iff:
  "table_live s \<longleftrightarrow>
     (\<forall>(j, b) \<in> set (pending s). j < next_id s \<and> b < nfut s \<and> heap s b = Pending) \<and>
     distinct (map snd (pending s))"
  by (simp add: table_live_def list_all_iff)

lemma update_fresh: "k \<notin> fst ` set al \<Longrightarrow> AList.update k v al = al @ [(k, v)]"
  by (induction al) auto

lemma distinct_snd_delete: "distinct (map snd d) \<Longrightarrow> distinct (map snd (AList.delete k d))"
  by (simp add: AList.delete_eq distinct_map_filter)

lemma other_address:
  assumes "distinct (map snd d)" "map_of d k = Some a" "(j, b) \<in> set (AList.delete k d)"
  shows "b \<noteq> a"
proof
  assume "b = a"
  from assms(2) have ka: "(k, a) \<in> set d" by (rule map_of_SomeD)
  from assms(3) have jb: "(j, b) \<in> set d" "j \<noteq> k" by (auto simp add: AList.delete_eq)
  from assms(1) have "inj_on snd (set d)" by (simp add: distinct_map)
  from inj_onD[OF this _ ka jb(1)] \<open>b = a\<close> jb(2) show False by simp
qed

lemma table_live_delete:
  assumes "table_live s"
  shows "table_live (s\<lparr>pending := AList.delete k (pending s)\<rparr>)"
  using assms set_delete_subset[of k "pending s"]
  by (auto simp add: table_live_iff distinct_snd_delete)

lemma table_live_log: "table_live (s\<lparr>log := l\<rparr>) = table_live s"
  by (simp add: table_live_iff)

lemma table_live_read:
  assumes "table_live s"
  shows "table_live (state_of (reader_step s r))"
proof (cases r)
  case (Json v)
  show ?thesis
  proof (cases v)
    case (JObj resp)
    show ?thesis
    proof (cases "map_of resp ''id''")
      case None
      with Json JObj assms show ?thesis
        by (simp add: handle_message_def note_notification_def logs_def table_live_log
            split: option.splits)
    next
      case (Some rid)
      note nn = note_notification_id[OF Some]
      show ?thesis
      proof (cases "dict_key rid")
        case (Inl e)
        with Json JObj Some assms show ?thesis
          by (cases rid) (simp_all add: handle_message_def nn logs_def table_live_log)
      next
        case (Inr k)
        show ?thesis
        proof (cases k)
          case None
          with Json JObj Some Inr assms show ?thesis
            by (cases rid) (simp_all add: handle_message_def nn pop_def table_live_iff)
        next
          case (Some i)
          note k = Some
          have del: "table_live (s\<lparr>pending := AList.delete i (pending s)\<rparr>)"
            by (rule table_live_delete[OF assms])
          show ?thesis
          proof (cases "map_of (pending s) i")
            case None
            with Json JObj \<open>map_of resp ''id'' = Some rid\<close> Inr k del assms show ?thesis
              by (cases rid) (simp_all add: handle_message_def nn pop_def)
          next
            case (Some a)
            have "table_live (s\<lparr>pending := AList.delete i (pending s),
                heap := (heap s)(a := resolve resp)\<rparr>)"
              using del other_address[OF _ Some] assms
              by (auto simp add: table_live_iff)
            with Json JObj \<open>map_of resp ''id'' = Some rid\<close> Inr k del assms Some show ?thesis
              by (cases rid) (simp_all add: handle_message_def nn pop_def)
          qed
        qed
      qed
    qed
  qed (use Json assms in \<open>simp_all add: handle_message_def logs_def table_live_log\<close>)
qed (use assms in \<open>simp_all add: logs_def table_live_log\<close>)

lemma op_table_live: "calm s s' \<Longrightarrow> table_live s \<Longrightarrow> table_live s'"
proof (induction rule: act.induct)
  case (op_register s i a s')
  have old: "j < next_id s \<and> b < nfut s \<and> heap s b = Pending" if "(j, b) \<in> set (pending s)"
    for j b
    using op_register(2) that by (auto simp add: table_live_iff)
  then have k: "next_id s \<notin> fst ` set (pending s)" and f: "nfut s \<notin> snd ` set (pending s)"
    by fastforce+
  from op_register(1) have s': "s' = s\<lparr>next_id := next_id s + 1,
      heap := (heap s)(nfut s := Pending), nfut := nfut s + 1,
      pending := pending s @ [(next_id s, nfut s)]\<rparr>"
    by (auto simp add: register_eq update_fresh[OF k])
  have new: "\<forall>(j, b) \<in> set (pending s @ [(next_id s, nfut s)]).
      j < next_id s + 1 \<and> b < nfut s + 1 \<and> ((heap s)(nfut s := Pending)) b = Pending"
    using old by fastforce
  have d: "distinct (map snd (pending s @ [(next_id s, nfut s)]))"
    using op_register(2) f by (simp add: table_live_iff)
  from new d show ?case
    unfolding s' table_live_iff by simp
next
  case (op_read s r)
  then show ?case by (simp add: table_live_read)
next
  case (op_teardown s)
  show ?case by (simp add: table_live_iff pending_teardown)
next
  case (op_forget s m t i)
  from table_live_delete[OF op_forget, of i] show ?case
    by (simp add: forget_def logs_def Let_def table_live_iff)
next
  case (op_on_exception s m i e)
  from table_live_delete[OF op_on_exception, of i] show ?case
    by (simp add: on_exception_def logs_def Let_def table_live_iff)
next
  case (op_other s' s)
  then show ?case by (simp add: table_live_iff)
next
  case (op_interrupted c s k)
  then show ?case by simp
qed

lemma ops_table_live: "calm\<^sup>*\<^sup>* s s' \<Longrightarrow> table_live s \<Longrightarrow> table_live s'"
  by (induction rule: rtranclp_induct) (auto dest: op_table_live)

text \<open>A call in an environment that interrupts no restart is a sequence of such actions.\<close>

lemma calm_calls:
  assumes "\<And>r. meddle E r = None" "send_request n E m p t s = Some (s', out)"
  shows "calm\<^sup>*\<^sup>* s s'"
  using calls_are_acts[of "\<lambda>c. False" n] within_calm[of E "\<lambda>c. False", OF assms(1)] assms(2)
  by blast

lemma registered_future_pending:
  assumes "calm\<^sup>*\<^sup>* (fresh tmo) s" "map_of (pending s) X = Some a"
  shows "heap s a = Pending"
proof -
  have "table_live (fresh tmo)" by (simp add: table_live_iff fresh_def)
  from ops_table_live[OF assms(1) this] map_of_SomeD[OF assms(2)] show ?thesis
    by (auto simp add: table_live_iff)
qed

section \<open>Concurrent callers\<close>

lemma mutex_step:
  assumes "mutex c"
  shows "mutex (tstep L t c)"
proof (cases c)
  case (Pair \<sigma> pcs)
  with assms have m: "\<And>u. holds (pcs u) \<longleftrightarrow> lock \<sigma> = Some u"
    by (simp add: mutex_def)
  show ?thesis
  proof (cases "pcs t")
    case (Writing i r)
    with m[of t] m Pair show ?thesis
      by (cases r) (auto simp add: mutex_def)
  qed (use m[of t] m Pair in \<open>auto simp add: mutex_def\<close>)
qed

lemma ids_ok_step:
  assumes "mutex c" and "ids_ok c"
  shows "ids_ok (tstep L t c)"
proof (cases c)
  case (Pair \<sigma> pcs)
  with assms(1) have m: "\<And>u. holds (pcs u) \<longleftrightarrow> lock \<sigma> = Some u"
    by (simp add: mutex_def)
  from assms(2) Pair have inv: "ids_ok (\<sigma>, pcs)" by simp
  have srt: "sorted_wrt (<) (issued \<sigma>)"
    using inv unfolding ids_ok_def fst_conv snd_conv by blast
  have below: "j < counter \<sigma>" if "j \<in> set (issued \<sigma>)" for j
    using inv that unfolding ids_ok_def fst_conv snd_conv by blast
  have rd: "i = counter \<sigma>" if "pcs u = GetId_read i" for u i
    using inv that unfolding ids_ok_def fst_conv snd_conv by blast
  have ld: "i = counter \<sigma>" "v = counter \<sigma>" if "pcs u = GetId_loaded i v" for u i v
    using inv that unfolding ids_ok_def fst_conv snd_conv by blast+
  have st: "counter \<sigma> = i + 1" "\<forall>j \<in> set (issued \<sigma>). j < i" if "pcs u = GetId_stored i" for u i
    using inv that unfolding ids_ok_def fst_conv snd_conv by blast+
  have has: "i \<in> set (issued \<sigma>)" if "id_of (pcs u) = Some i" for u i
    using inv that unfolding ids_ok_def fst_conv snd_conv by blast
  have uniq: "u = u'" if "id_of (pcs u) = Some i" "id_of (pcs u') = Some i" for u u' i
    using inv that unfolding ids_ok_def fst_conv snd_conv by blast
  have other: "\<not> holds (pcs u)" if "holds (pcs t)" "u \<noteq> t" for u
    using m[of t] m[of u] that by simp
  have no: "pcs u \<noteq> GetId_read i'" "pcs u \<noteq> GetId_loaded i' v'" "pcs u \<noteq> GetId_stored i'"
    if "holds (pcs t)" "u \<noteq> t" for u i' v'
    using other[OF that] by auto
  show ?thesis
  proof (cases "pcs t")
    case Start
    with Pair srt below rd ld st has uniq show ?thesis
      by (auto simp add: ids_ok_def)
  next
    case GetId_locked
    then have h: "holds (pcs t)" by simp
    from GetId_locked Pair srt below no[OF h] has uniq show ?thesis
      by (auto simp add: ids_ok_def)
  next
    case (GetId_read i)
    then have h: "holds (pcs t)" by simp
    from GetId_read Pair srt below rd[of t i] no[OF h] has uniq show ?thesis
      by (auto simp add: ids_ok_def)
  next
    case (GetId_loaded i v)
    then have h: "holds (pcs t)" by simp
    note no = no[OF h]
    from GetId_loaded ld[of t i v] have iv: "i = counter \<sigma>" "v = counter \<sigma>" by simp_all
    from below iv have b0: "\<And>j. j \<in> set (issued \<sigma>) \<Longrightarrow> j < i" by simp
    from below iv have b1: "\<And>j. j \<in> set (issued \<sigma>) \<Longrightarrow> j < i + 1" by force
    from iv have vi: "v = i" by simp
    from GetId_loaded Pair srt vi b0 b1 no has uniq show ?thesis
      by (auto simp add: ids_ok_def)
  next
    case (GetId_stored i)
    then have h: "holds (pcs t)" by simp
    note no = no[OF h]
    from GetId_stored st[of t i] have c: "counter \<sigma> = i + 1"
      and lt: "\<And>j. j \<in> set (issued \<sigma>) \<Longrightarrow> j < i" by simp_all
    have new: "id_of (pcs u) \<noteq> Some i" for u
      using has[of u i] lt[of i] by auto
    from lt have le: "\<And>j. j \<in> set (issued \<sigma>) \<Longrightarrow> j \<le> i" by force
    from GetId_stored Pair srt c lt le no has uniq new show ?thesis
      by (auto simp add: ids_ok_def sorted_wrt_append)
  next
    case (Have_id i)
    with Pair srt below rd ld st has[of t i] has uniq[of t i] uniq show ?thesis
      by (auto simp add: ids_ok_def)
  next
    case (Registered i)
    with Pair srt below rd ld st has[of t i] has uniq[of t i] uniq show ?thesis
      by (auto simp add: ids_ok_def)
  next
    case (Encoding i)
    with Pair srt below rd ld st has[of t i] has uniq[of t i] uniq show ?thesis
      by (auto simp add: ids_ok_def)
  next
    case (Writing i r)
    with Pair srt below rd ld st has[of t i] has uniq[of t i] uniq show ?thesis
      by (cases r) (auto simp add: ids_ok_def)
  next
    case (Sent i)
    with Pair assms(2) show ?thesis by simp
  qed
qed

lemma wire_ok_step:
  assumes "mutex c" and "wire_ok L c"
  shows "wire_ok L (tstep L t c)"
proof (cases c)
  case (Pair \<sigma> pcs)
  with assms(1) have m: "\<And>u. holds (pcs u) \<longleftrightarrow> lock \<sigma> = Some u"
    by (simp add: mutex_def)
  from assms(2) Pair have inv: "wire_ok L (\<sigma>, pcs)" by simp
  have w1: "wire \<sigma> = concat (map L (completed \<sigma>)) @ cur \<sigma>"
    using inv unfolding wire_ok_def fst_conv snd_conv by blast
  have w2: "cur \<sigma> @ r = L i" if "pcs u = Writing i r" for u i r
    using inv that unfolding wire_ok_def fst_conv snd_conv by blast
  have w3: "cur \<sigma> = []" if "lock \<sigma> = Some u" "\<And>i r. pcs u \<noteq> Writing i r" for u
    using inv that unfolding wire_ok_def fst_conv snd_conv by blast
  have w3': "\<forall>u. lock \<sigma> = Some u \<longrightarrow> (\<forall>i r. pcs u \<noteq> Writing i r) \<longrightarrow> cur \<sigma> = []"
    using inv unfolding wire_ok_def fst_conv snd_conv by blast
  have w4: "cur \<sigma> = []" if "lock \<sigma> = None"
    using inv that unfolding wire_ok_def fst_conv snd_conv by blast
  have w5: "i \<in> set (table \<sigma>)" if "registered (pcs u) = Some i" for u i
    using inv that unfolding wire_ok_def fst_conv snd_conv by blast
  have w6: "i \<in> set (table \<sigma>)" if "i \<in> set (completed \<sigma>)" for i
    using inv that unfolding wire_ok_def fst_conv snd_conv by blast
  have other: "\<not> holds (pcs u)" if "holds (pcs t)" "u \<noteq> t" for u
    using m[of t] m[of u] that by simp
  have nw: "pcs u \<noteq> Writing i r" if "holds (pcs t)" "u \<noteq> t" for u i r
    using other[OF that] by auto
  have idle: "cur \<sigma> = []" if "holds (pcs t)" "\<And>i r. pcs t \<noteq> Writing i r"
    using w3[of t] m[of t] that by simp
  show ?thesis
  proof (cases "pcs t")
    case Start
    with Pair w1 w2 w3' w4 w5 w6 m show ?thesis
      by (auto simp add: wire_ok_def)
  next
    case GetId_locked
    with Pair w1 w2 w5 w6 idle show ?thesis
      by (auto simp add: wire_ok_def)
  next
    case (GetId_read i)
    with Pair w1 w2 w5 w6 idle show ?thesis
      by (auto simp add: wire_ok_def)
  next
    case (GetId_loaded i v)
    with Pair w1 w2 w5 w6 idle show ?thesis
      by (auto simp add: wire_ok_def)
  next
    case (GetId_stored i)
    with Pair w1 w2 w5 w6 idle show ?thesis
      by (auto simp add: wire_ok_def)
  next
    case (Have_id i)
    with Pair w1 w2 w3' w4 w5 w6 show ?thesis
      by (auto simp add: wire_ok_def)
  next
    case (Registered i)
    with Pair w1 w2 w3' w4 w5[of t i] w5 w6 m show ?thesis
      by (auto simp add: wire_ok_def)
  next
    case (Encoding i)
    then have h: "holds (pcs t)" by simp
    from Encoding idle have e: "cur \<sigma> = []" by simp
    from Encoding Pair w1 e w5[of t i] w5 w6 nw[OF h] show ?thesis
      by (auto simp add: wire_ok_def)
  next
    case (Writing i r)
    then have h: "holds (pcs t)" by simp
    show ?thesis
    proof (cases r)
      case Nil
      with Writing w2[of t i r] have "cur \<sigma> = L i" by simp
      with Nil Writing Pair w1 w5[of t i] w5 w6 nw[OF h] show ?thesis
        by (auto simp add: wire_ok_def)
    next
      case (Cons x xs)
      with Writing w2[of t i r] have "cur \<sigma> @ x # xs = L i" by simp
      with Cons Writing Pair w1 w5[of t i] w5 w6 nw[OF h] m[of t] show ?thesis
        by (auto simp add: wire_ok_def)
    qed
  next
    case (Sent i)
    with Pair assms(2) show ?thesis by simp
  qed
qed

lemma start_ok: "mutex (start n)" "ids_ok (start n)" "wire_ok L (start n)"
  by (simp_all add: start_def mutex_def ids_ok_def wire_ok_def)

lemma run_ok: "mutex c \<and> ids_ok c \<and> wire_ok L c \<Longrightarrow>
    mutex (run L sched c) \<and> ids_ok (run L sched c) \<and> wire_ok L (run L sched c)"
  unfolding run_def
proof (induction sched arbitrary: c)
  case Nil
  then show ?case by simp
next
  case (Cons t sched)
  from Cons.prems have "mutex (tstep L t c) \<and> ids_ok (tstep L t c) \<and> wire_ok L (tstep L t c)"
    by (simp add: mutex_step ids_ok_step wire_ok_step)
  from Cons.IH[OF this] show ?case by simp
qed

lemma sorted_distinct: "sorted_wrt (<) (xs :: int list) \<Longrightarrow> distinct xs"
  by (simp add: strict_sorted_iff)

text \<open>
  Claim C6. Whatever the schedule of any number of threads that call \<^verbatim>\<open>_send_request\<close>
  from a client whose counter is \<open>n\<close>: the identifiers, in the order in which
  \<^verbatim>\<open>_get_id\<close> returned them, increase strictly and so are pairwise distinct; no two
  threads hold the same identifier; every identifier a thread holds is one of them; and at
  most one thread is inside a block of the lock, where alone the counter is read and
  written.
\<close>

theorem C6_ids_distinct_and_increasing:
  "sorted_wrt (<) (issued (fst (run L sched (start n))))
   \<and> distinct (issued (fst (run L sched (start n))))
   \<and> (\<forall>t t'. holds (snd (run L sched (start n)) t) \<longrightarrow>
               holds (snd (run L sched (start n)) t') \<longrightarrow> t = t')
   \<and> (\<forall>t t' i. id_of (snd (run L sched (start n)) t) = Some i \<longrightarrow>
                 id_of (snd (run L sched (start n)) t') = Some i \<longrightarrow> t = t')
   \<and> (\<forall>t i. id_of (snd (run L sched (start n)) t) = Some i \<longrightarrow>
               i \<in> set (issued (fst (run L sched (start n)))))"
proof -
  let ?c = "run L sched (start n)"
  from run_ok[of "start n" L sched] start_ok
  have m: "mutex ?c" and i: "ids_ok ?c" by simp_all
  from i have s: "sorted_wrt (<) (issued (fst ?c))"
    unfolding ids_ok_def by blast
  from m have x: "\<forall>t t'. holds (snd ?c t) \<longrightarrow> holds (snd ?c t') \<longrightarrow> t = t'"
    unfolding mutex_def by simp
  from i have u: "\<forall>t t' i. id_of (snd ?c t) = Some i \<longrightarrow> id_of (snd ?c t') = Some i \<longrightarrow> t = t'"
    and h: "\<forall>t i. id_of (snd ?c t) = Some i \<longrightarrow> i \<in> set (issued (fst ?c))"
    unfolding ids_ok_def by blast+
  from s sorted_distinct[OF s] x u h show ?thesis by blast
qed

text \<open>
  Two threads: thread 0 takes the lock, thread 1 asks for it in vain, thread 0 finishes
  \<^verbatim>\<open>_get_id\<close>, then thread 1 runs it.
\<close>

theorem C6_witness:
  "issued (fst (run (\<lambda>i. ''x'') [0, 1, 0, 0, 0, 0, 1, 1, 1, 1, 1] (start 1))) = [1, 2]
   \<and> id_of (snd (run (\<lambda>i. ''x'') [0, 1, 0, 0, 0, 0, 1, 1, 1, 1, 1] (start 1)) 0) = Some 1
   \<and> id_of (snd (run (\<lambda>i. ''x'') [0, 1, 0, 0, 0, 0, 1, 1, 1, 1, 1] (start 1)) 1) = Some 2
   \<and> sorted_wrt (<) (issued (fst (run (\<lambda>i. ''x'') [0, 1, 0, 0, 0, 0, 1, 1, 1, 1, 1] (start 1))))
   \<and> distinct (issued (fst (run (\<lambda>i. ''x'') [0, 1, 0, 0, 0, 0, 1, 1, 1, 1, 1] (start 1))))
   \<and> holds (snd (run (\<lambda>i. ''x'') [0, 1, 0] (start 1)) 0)
   \<and> \<not> holds (snd (run (\<lambda>i. ''x'') [0, 1, 0] (start 1)) 1)"
proof -
  have e: "issued (fst (run (\<lambda>i. ''x'') [0, 1, 0, 0, 0, 0, 1, 1, 1, 1, 1] (start 1))) = [1, 2]"
    "id_of (snd (run (\<lambda>i. ''x'') [0, 1, 0, 0, 0, 0, 1, 1, 1, 1, 1] (start 1)) 0) = Some 1"
    "id_of (snd (run (\<lambda>i. ''x'') [0, 1, 0, 0, 0, 0, 1, 1, 1, 1, 1] (start 1)) 1) = Some 2"
    "holds (snd (run (\<lambda>i. ''x'') [0, 1, 0] (start 1)) 0)"
    by (simp_all add: run_def start_def)
  from C6_ids_distinct_and_increasing[of "\<lambda>i. ''x''" "[0, 1, 0, 0, 0, 0, 1, 1, 1, 1, 1]" 1]
  have a: "sorted_wrt (<) (issued (fst (run (\<lambda>i. ''x'') [0, 1, 0, 0, 0, 0, 1, 1, 1, 1, 1] (start 1))))"
    "distinct (issued (fst (run (\<lambda>i. ''x'') [0, 1, 0, 0, 0, 0, 1, 1, 1, 1, 1] (start 1))))"
    by blast+
  from C6_ids_distinct_and_increasing[of "\<lambda>i. ''x''" "[0, 1, 0]" 1] e(4)
  have b: "\<not> holds (snd (run (\<lambda>i. ''x'') [0, 1, 0] (start 1)) 1)"
    by (metis zero_neq_one)
  from e a b show ?thesis by blast
qed

text \<open>
  Claim C8. Whatever the schedule: a thread writes only while it holds the lock, and its
  identifier is in the table before its first character is written; what has reached the
  subprocess is the lines of the requests written in full, one after the other, followed
  by the part written so far of the line of the one thread that is writing, so no two
  lines are interleaved; when no thread is writing, the subprocess has whole lines only;
  and every request whose line the subprocess has in full, the only ones it can answer,
  is in the table.
\<close>

theorem C8_registered_then_written_whole:
  "wire (fst (run L sched (start n))) =
     concat (map L (completed (fst (run L sched (start n))))) @ cur (fst (run L sched (start n)))
   \<and> (\<forall>t i r. snd (run L sched (start n)) t = Writing i r \<longrightarrow>
         lock (fst (run L sched (start n))) = Some t
         \<and> cur (fst (run L sched (start n))) @ r = L i
         \<and> i \<in> set (table (fst (run L sched (start n)))))
   \<and> ((\<forall>t i r. snd (run L sched (start n)) t \<noteq> Writing i r) \<longrightarrow>
         cur (fst (run L sched (start n))) = [])
   \<and> (\<forall>i \<in> set (completed (fst (run L sched (start n)))).
         i \<in> set (table (fst (run L sched (start n)))))
   \<and> (\<forall>t t'. holds (snd (run L sched (start n)) t) \<longrightarrow>
               holds (snd (run L sched (start n)) t') \<longrightarrow> t = t')"
proof -
  let ?c = "run L sched (start n)"
  from run_ok[of "start n" L sched] start_ok
  have m: "mutex ?c" and w: "wire_ok L ?c" by simp_all
  from m have mm: "\<And>u. holds (snd ?c u) \<longleftrightarrow> lock (fst ?c) = Some u"
    by (simp add: mutex_def)
  from w have w1: "wire (fst ?c) = concat (map L (completed (fst ?c))) @ cur (fst ?c)"
    and w2: "\<forall>t i r. snd ?c t = Writing i r \<longrightarrow> cur (fst ?c) @ r = L i"
    and w3: "\<forall>t. (\<forall>i r. snd ?c t \<noteq> Writing i r) \<longrightarrow> lock (fst ?c) = Some t \<longrightarrow> cur (fst ?c) = []"
    and w4: "lock (fst ?c) = None \<longrightarrow> cur (fst ?c) = []"
    and w5: "\<forall>t i. registered (snd ?c t) = Some i \<longrightarrow> i \<in> set (table (fst ?c))"
    and w6: "\<forall>i \<in> set (completed (fst ?c)). i \<in> set (table (fst ?c))"
    unfolding wire_ok_def by blast+
  have a: "lock (fst ?c) = Some t \<and> cur (fst ?c) @ r = L i \<and> i \<in> set (table (fst ?c))"
    if wr: "snd ?c t = Writing i r" for t i r
  proof -
    from wr have "holds (snd ?c t)" "registered (snd ?c t) = Some i" by simp_all
    with mm[of t] w2 w5 wr show ?thesis by blast
  qed
  have b: "cur (fst ?c) = []" if "\<forall>t i r. snd ?c t \<noteq> Writing i r"
    using that w3 w4 by (cases "lock (fst ?c)") auto
  from mm have x: "\<forall>t t'. holds (snd ?c t) \<longrightarrow> holds (snd ?c t') \<longrightarrow> t = t'"
    by simp
  from w1 a b w6 x show ?thesis by blast
qed

text \<open>
  Two threads with the lines \<^verbatim>\<open>ab\<close> and \<^verbatim>\<open>cd\<close>. Thread 0 has written \<^verbatim>\<open>a\<close>;
  thread 1, registered, asks for the lock in vain; thread 0 writes \<^verbatim>\<open>b\<close> and
  releases; then thread 1 writes its line.
\<close>

theorem C8_witness:
  "snd (run (\<lambda>i. if i = 1 then ''ab'' else ''cd'')
        [0, 0, 0, 0, 0, 0, 1, 1, 1, 1, 1, 1, 0, 0, 0, 1] (start 1)) 0 = Writing 1 ''b''
   \<and> snd (run (\<lambda>i. if i = 1 then ''ab'' else ''cd'')
        [0, 0, 0, 0, 0, 0, 1, 1, 1, 1, 1, 1, 0, 0, 0, 1] (start 1)) 1 = Registered 2
   \<and> lock (fst (run (\<lambda>i. if i = 1 then ''ab'' else ''cd'')
        [0, 0, 0, 0, 0, 0, 1, 1, 1, 1, 1, 1, 0, 0, 0, 1] (start 1))) = Some 0
   \<and> wire (fst (run (\<lambda>i. if i = 1 then ''ab'' else ''cd'')
        [0, 0, 0, 0, 0, 0, 1, 1, 1, 1, 1, 1, 0, 0, 0, 1] (start 1))) = ''a''
   \<and> 1 \<in> set (table (fst (run (\<lambda>i. if i = 1 then ''ab'' else ''cd'')
        [0, 0, 0, 0, 0, 0, 1, 1, 1, 1, 1, 1, 0, 0, 0, 1] (start 1))))
   \<and> completed (fst (run (\<lambda>i. if i = 1 then ''ab'' else ''cd'')
        [0, 0, 0, 0, 0, 0, 1, 1, 1, 1, 1, 1, 0, 0, 0, 1, 0, 0, 1, 1, 1, 1, 1] (start 1))) = [1, 2]
   \<and> wire (fst (run (\<lambda>i. if i = 1 then ''ab'' else ''cd'')
        [0, 0, 0, 0, 0, 0, 1, 1, 1, 1, 1, 1, 0, 0, 0, 1, 0, 0, 1, 1, 1, 1, 1] (start 1))) = ''abcd''
   \<and> set (completed (fst (run (\<lambda>i. if i = 1 then ''ab'' else ''cd'')
        [0, 0, 0, 0, 0, 0, 1, 1, 1, 1, 1, 1, 0, 0, 0, 1, 0, 0, 1, 1, 1, 1, 1] (start 1))))
       \<subseteq> set (table (fst (run (\<lambda>i. if i = 1 then ''ab'' else ''cd'')
        [0, 0, 0, 0, 0, 0, 1, 1, 1, 1, 1, 1, 0, 0, 0, 1, 0, 0, 1, 1, 1, 1, 1] (start 1))))"
proof -
  let ?L = "\<lambda>i :: int. if i = 1 then ''ab'' else ''cd''"
  let ?s1 = "[0, 0, 0, 0, 0, 0, 1, 1, 1, 1, 1, 1, 0, 0, 0, 1] :: nat list"
  let ?s2 = "[0, 0, 0, 0, 0, 0, 1, 1, 1, 1, 1, 1, 0, 0, 0, 1, 0, 0, 1, 1, 1, 1, 1] :: nat list"
  have e: "snd (run ?L ?s1 (start 1)) 0 = Writing 1 ''b''"
    "snd (run ?L ?s1 (start 1)) 1 = Registered 2"
    "wire (fst (run ?L ?s1 (start 1))) = ''a''"
    "completed (fst (run ?L ?s2 (start 1))) = [1, 2]"
    "wire (fst (run ?L ?s2 (start 1))) = ''abcd''"
    by (simp_all add: run_def start_def)
  from C8_registered_then_written_whole[of ?L ?s1 1] e(1)
  have a: "lock (fst (run ?L ?s1 (start 1))) = Some 0"
    "1 \<in> set (table (fst (run ?L ?s1 (start 1))))"
    by blast+
  from C8_registered_then_written_whole[of ?L ?s2 1]
  have b: "set (completed (fst (run ?L ?s2 (start 1)))) \<subseteq> set (table (fst (run ?L ?s2 (start 1))))"
    by blast
  from e a b show ?thesis by blast
qed

end
